theory Spec2Isabelle
  imports Main "HOL-Library.Word" "HOL-Library.Sublist"
begin

section \<open>JavaScript strings\<close>

text \<open>
  A JavaScript string is a sequence of UTF-16 code units; \<open>length\<close>, indexing and the
  regular expressions of the converter (none of which has the \<open>u\<close> flag) all work on
  code units.
\<close>

type_synonym jschar = "16 word"
type_synonym jsstring = "jschar list"

text \<open>An ASCII literal as a JavaScript string.\<close>

definition js :: "string \<Rightarrow> jsstring" where
  "js cs = map of_char cs"

definition NL :: jschar where
  "NL = 10"

text \<open>
  ECMAScript \<open>LineTerminator\<close>: LF, CR, LS, PS. The regular expression atom \<open>.\<close>
  (without the \<open>s\<close> flag) matches every code unit but these.
\<close>

definition isLineTerminator :: "jschar \<Rightarrow> bool" where
  "isLineTerminator c = (c = 0x0A \<or> c = 0x0D \<or> c = 0x2028 \<or> c = 0x2029)"

text \<open>
  ECMAScript \<open>WhiteSpace\<close> and \<open>LineTerminator\<close>: the code units that \<open>\s\<close> matches and
  that \<open>String.prototype.trim\<close> strips.
\<close>

definition isWhiteSpace :: "jschar \<Rightarrow> bool" where
  "isWhiteSpace c =
     (c = 0x09 \<or> c = 0x0A \<or> c = 0x0B \<or> c = 0x0C \<or> c = 0x0D \<or> c = 0x20 \<or> c = 0xA0
      \<or> c = 0x1680 \<or> (0x2000 \<le> c \<and> c \<le> 0x200A) \<or> c = 0x2028 \<or> c = 0x2029
      \<or> c = 0x202F \<or> c = 0x205F \<or> c = 0x3000 \<or> c = 0xFEFF)"

definition isDigit :: "jschar \<Rightarrow> bool" where
  "isDigit c = (0x30 \<le> c \<and> c \<le> 0x39)"

definition isAlnum :: "jschar \<Rightarrow> bool" where
  "isAlnum c = ((0x61 \<le> c \<and> c \<le> 0x7A) \<or> (0x41 \<le> c \<and> c \<le> 0x5A) \<or> (0x30 \<le> c \<and> c \<le> 0x39))"

definition isDot :: "jschar \<Rightarrow> bool" where
  "isDot c = (\<not> isLineTerminator c)"

definition lit :: "char \<Rightarrow> jschar \<Rightarrow> bool" where
  "lit a c = (c = of_char a)"

text \<open>\<open>markdown.split('\n')\<close>: always at least one piece.\<close>

fun split_acc :: "jschar \<Rightarrow> jsstring \<Rightarrow> jsstring \<Rightarrow> jsstring list" where
  "split_acc sep cur [] = [cur]"
| "split_acc sep cur (c # cs) =
     (if c = sep then cur # split_acc sep [] cs else split_acc sep (cur @ [c]) cs)"

definition split :: "jsstring \<Rightarrow> jschar \<Rightarrow> jsstring list" where
  "split s sep = split_acc sep [] s"

text \<open>\<open>s.trim()\<close> and \<open>s.startsWith(p)\<close>.\<close>

definition trim :: "jsstring \<Rightarrow> jsstring" where
  "trim s = rev (dropWhile isWhiteSpace (rev (dropWhile isWhiteSpace s)))"

definition startsWith :: "jsstring \<Rightarrow> jsstring \<Rightarrow> bool" where
  "startsWith s p = (take (length p) s = p)"

section \<open>Regular expressions\<close>

text \<open>
  The converter's regular expressions use backreferences, lazy quantifiers and
  lookaround, so they are run by a backtracking matcher that follows the ECMAScript
  semantics: a pattern maps a state (position, captures) to the list of states in which
  it can end, in the order in which backtracking tries them.
\<close>

datatype regex =
    Atom "jschar \<Rightarrow> bool"
  | Seq regex regex
  | Alt regex regex
  | Rep nat "nat option" bool regex
  | Group nat regex
  | Backref nat
  | Bol
  | Eol
  | NegAhead regex
  | NegBehind1 "jschar \<Rightarrow> bool"

type_synonym captures = "nat \<rightharpoonup> nat \<times> nat"
type_synonym mstate = "nat \<times> captures"

primrec groups :: "regex \<Rightarrow> nat set" where
  "groups (Atom P) = {}"
| "groups (Seq a b) = groups a \<union> groups b"
| "groups (Alt a b) = groups a \<union> groups b"
| "groups (Rep mn mx g r) = groups r"
| "groups (Group n r) = insert n (groups r)"
| "groups (Backref n) = {}"
| "groups Bol = {}"
| "groups Eol = {}"
| "groups (NegAhead r) = groups r"
| "groups (NegBehind1 P) = {}"

definition slice :: "jsstring \<Rightarrow> nat \<Rightarrow> nat \<Rightarrow> jsstring" where
  "slice s a b = take (b - a) (drop a s)"

text \<open>
  ECMAScript \<open>RepeatMatcher\<close>: \<open>m\<close> is the matcher of the quantified atom, \<open>gs\<close> its
  capture groups (reset at each iteration), \<open>mn\<close> and \<open>mx\<close> the bounds (\<open>None\<close> is
  no upper bound), \<open>g\<close> is greedy. Once the minimum is reached, an iteration that consumes
  nothing is rejected. A forward matcher only moves right and stays inside the input
  (\<open>matches_bounds\<close> below); the test is written with \<open>\<le>\<close> and the input length \<open>n\<close> so
  that the recursion is seen to end.
\<close>

function rep :: "nat \<Rightarrow> nat set \<Rightarrow> (mstate \<Rightarrow> mstate list) \<Rightarrow> nat \<Rightarrow> nat option \<Rightarrow> bool
    \<Rightarrow> mstate \<Rightarrow> mstate list" where
  "rep n gs m mn mx g x =
     (if mx = Some 0 then [x]
      else
        let xr = (fst x, (\<lambda>k. if k \<in> gs then None else snd x k));
            more = concat (map (\<lambda>y.
                     if mn = 0 \<and> (fst y \<le> fst x \<or> n < fst y) then []
                     else rep n gs m (mn - 1) (map_option (\<lambda>k. k - 1) mx) g y) (m xr))
        in if mn \<noteq> 0 then more
           else if g then more @ [x]
           else x # more)"
  by pat_completeness auto
termination
  by (relation "measures [\<lambda>(n, gs, m, mn, mx, g, x). mn, \<lambda>(n, gs, m, mn, mx, g, x). n - fst x]") auto

declare rep.simps [simp del]

text \<open>A matcher that ends in \<open>y\<close> when \<open>c\<close> holds and fails otherwise.\<close>

definition succeed_if :: "bool \<Rightarrow> mstate \<Rightarrow> mstate list" where
  "succeed_if c y = (if c then [y] else [])"

primrec matches :: "jsstring \<Rightarrow> regex \<Rightarrow> mstate \<Rightarrow> mstate list" where
  "matches s (Atom P) x = succeed_if (fst x < length s \<and> P (s ! fst x)) (fst x + 1, snd x)"
| "matches s (Seq a b) x = concat (map (matches s b) (matches s a x))"
| "matches s (Alt a b) x = matches s a x @ matches s b x"
| "matches s (Rep mn mx g r) x = rep (length s) (groups r) (matches s r) mn mx g x"
| "matches s (Group n r) x =
     map (\<lambda>y. (fst y, (snd y)(n \<mapsto> (fst x, fst y)))) (matches s r x)"
| "matches s (Backref n) x =
     (case snd x n of
        None \<Rightarrow> [x]
      | Some (a, b) \<Rightarrow>
          succeed_if
            (fst x + (b - a) \<le> length s \<and> slice s (fst x) (fst x + (b - a)) = slice s a b)
            (fst x + (b - a), snd x))"
| "matches s Bol x = succeed_if (fst x = 0) x"
| "matches s Eol x = succeed_if (fst x = length s) x"
| "matches s (NegAhead r) x = succeed_if (matches s r x = []) x"
| "matches s (NegBehind1 P) x =
     succeed_if (\<not> (0 < fst x \<and> fst x \<le> length s \<and> P (s ! (fst x - 1)))) x"

text \<open>
  A match: where it starts, where it ends, and its captures. \<open>group s m k\<close> is
  \<open>match[k]\<close>; \<open>None\<close> is \<open>undefined\<close>.
\<close>

type_synonym rmatch = "nat \<times> nat \<times> captures"

definition m_index :: "rmatch \<Rightarrow> nat" where
  "m_index m = fst m"

definition m_end :: "rmatch \<Rightarrow> nat" where
  "m_end m = fst (snd m)"

definition group :: "jsstring \<Rightarrow> rmatch \<Rightarrow> nat \<Rightarrow> jsstring option" where
  "group s m k = map_option (\<lambda>(a, b). slice s a b) (snd (snd m) k)"

text \<open>
  \<open>RegExpBuiltinExec\<close>: try every start position from \<open>lastIndex\<close> on, take the first
  state the pattern ends in.
\<close>

function exec :: "regex \<Rightarrow> jsstring \<Rightarrow> nat \<Rightarrow> rmatch option" where
  "exec re s i =
     (if length s < i then None
      else case matches s re (i, Map.empty) of
             [] \<Rightarrow> exec re s (i + 1)
           | y # _ \<Rightarrow> Some (i, fst y, snd y))"
  by pat_completeness auto
termination
  by (relation "measure (\<lambda>(re, s, i). length s + 1 - i)") auto

declare exec.simps [simp del]

text \<open>\<open>s.match(re)\<close> for a regular expression without the \<open>g\<close> flag.\<close>

definition match_re :: "jsstring \<Rightarrow> regex \<Rightarrow> rmatch option" where
  "match_re s re = exec re s 0"

text \<open>Shorthands for writing the patterns.\<close>

primrec seqs :: "regex \<Rightarrow> regex list \<Rightarrow> regex" where
  "seqs r [] = r"
| "seqs r (q # qs) = Seq r (seqs q qs)"

definition ch :: "char \<Rightarrow> regex" where
  "ch a = Atom (lit a)"

definition star :: "regex \<Rightarrow> regex" where
  "star r = Rep 0 None True r"

definition plus :: "regex \<Rightarrow> regex" where
  "plus r = Rep 1 None True r"

definition lazy_star :: "regex \<Rightarrow> regex" where
  "lazy_star r = Rep 0 None False r"

definition opt :: "regex \<Rightarrow> regex" where
  "opt r = Rep 0 (Some 1) True r"

section \<open>Requests of the Google Docs API\<close>

datatype textStyle =
    Bold
  | Italic
  | Link "jsstring option"
  | CourierNewGray

datatype paragraphStyle =
    NamedStyleType string
  | Indent nat int

text \<open>
  \<open>InsertText text index\<close>; the other requests carry their range as \<open>startIndex\<close>,
  \<open>endIndex\<close>, and then \<open>fields\<close> or \<open>bulletPreset\<close>. \<open>Link url\<close> is
  \<open>{link: {url}}\<close>; \<open>CourierNewGray\<close> is \<open>fontFamily: 'Courier New'\<close> with the
  background colour (0.95, 0.95, 0.95); \<open>Indent k l\<close> is \<open>indentStart\<close> of \<open>k\<close> PT
  with \<open>indentFirstLine\<close> of \<open>l\<close> PT.
\<close>

datatype request =
    InsertText jsstring nat
  | UpdateParagraphStyle paragraphStyle nat nat string
  | UpdateTextStyle textStyle nat nat string
  | CreateParagraphBullets nat nat string

text \<open>A number in a template literal.\<close>

function decimal :: "nat \<Rightarrow> string" where
  "decimal n =
     (if n < 10 then [''0123456789'' ! n] else decimal (n div 10) @ [''0123456789'' ! (n mod 10)])"
  by pat_completeness auto
termination
  by (relation "measure id") auto

declare decimal.simps [simp del]

section \<open>processInlineFormatting\<close>

text \<open>\<open>/(\*\*|__)(.*?)\1/g\<close>\<close>

definition boldRegex :: regex where
  "boldRegex =
     seqs (Group 1 (Alt (seqs (ch CHR ''*'') [ch CHR ''*'']) (seqs (ch CHR ''_'') [ch CHR ''_''])))
       [Group 2 (lazy_star (Atom isDot)), Backref 1]"

text \<open>
  \<open>/(?<!\*|_)(\*|_)((?!\1).*?)\1(?!\1)/g\<close>. The lookbehind \<open>(?<!\*|_)\<close> looks at one
  code unit: the one before the position is neither \<open>*\<close> nor \<open>_\<close>.
\<close>

definition italicRegex :: regex where
  "italicRegex =
     seqs (NegBehind1 (\<lambda>c. lit CHR ''*'' c \<or> lit CHR ''_'' c))
       [Group 1 (Alt (ch CHR ''*'') (ch CHR ''_'')),
        Group 2 (seqs (NegAhead (Backref 1)) [lazy_star (Atom isDot)]),
        Backref 1,
        NegAhead (Backref 1)]"

text \<open>\<open>/\[(.*?)\]\((.*?)\)/g\<close>\<close>

definition linkRegex :: regex where
  "linkRegex =
     seqs (ch CHR ''['')
       [Group 1 (lazy_star (Atom isDot)), ch CHR '']'', ch CHR ''('',
        Group 2 (lazy_star (Atom isDot)), ch CHR '')'']"

text \<open>
  The loop \<open>while ((match = re.exec(text)) !== null) { requests.push(...) }\<close> over a
  regular expression with the \<open>g\<close> flag, \<open>lastIndex\<close> starting at 0:
  \<^item> \<open>Done rs\<close>: \<open>exec\<close> returned \<open>null\<close>, the array holds \<open>rs\<close>;
  \<^item> \<open>Threw rs\<close>: an exception left the loop, the array holds \<open>rs\<close>. It is raised by
    the loop body when it reads \<open>.length\<close> of a group that is \<open>undefined\<close> (the body
    returns \<open>None\<close>), or by the engine: \<open>fault = Some k\<close> says that \<open>k\<close> calls of
    \<open>exec\<close> return and the next one raises, \<open>None\<close> that none raises;
  \<^item> \<open>Diverged\<close>: \<open>exec\<close> has set \<open>lastIndex\<close> to the value it already had (an
    empty match there), so the loop repeats the same iteration forever.
\<close>

datatype outcome = Done "request list" | Threw "request list" | Diverged

function exec_loop :: "regex \<Rightarrow> jsstring \<Rightarrow> (rmatch \<Rightarrow> request option) \<Rightarrow> nat option \<Rightarrow> nat
    \<Rightarrow> request list \<Rightarrow> outcome" where
  "exec_loop re s body fault lastIndex requests =
     (if fault = Some 0 then Threw requests
      else case exec re s lastIndex of
             None \<Rightarrow> Done requests
           | Some m \<Rightarrow>
               (case body m of
                  None \<Rightarrow> Threw requests
                | Some r \<Rightarrow>
                    if lastIndex < m_end m \<and> m_end m \<le> length s
                    then exec_loop re s body (map_option (\<lambda>k. k - 1) fault) (m_end m)
                           (requests @ [r])
                    else Diverged))"
  by pat_completeness auto
termination
  by (relation "measure (\<lambda>(re, s, body, fault, lastIndex, requests). length s - lastIndex)") auto

declare exec_loop.simps [simp del]

definition bold_request :: "jsstring \<Rightarrow> nat \<Rightarrow> rmatch \<Rightarrow> request option" where
  "bold_request text startIndex m =
     (case (group text m 1, group text m 2) of
        (Some delim, Some matchText) \<Rightarrow>
          (let matchStart = m_index m + length delim;
               matchEnd = matchStart + length matchText
           in Some (UpdateTextStyle Bold (startIndex + matchStart) (startIndex + matchEnd) ''bold''))
      | _ \<Rightarrow> None)"

definition italic_request :: "jsstring \<Rightarrow> nat \<Rightarrow> rmatch \<Rightarrow> request option" where
  "italic_request text startIndex m =
     (case group text m 2 of
        Some matchText \<Rightarrow>
          (let matchStart = m_index m + 1;
               matchEnd = matchStart + length matchText
           in Some (UpdateTextStyle Italic (startIndex + matchStart) (startIndex + matchEnd)
                      ''italic''))
      | None \<Rightarrow> None)"

definition link_request :: "jsstring \<Rightarrow> nat \<Rightarrow> rmatch \<Rightarrow> request option" where
  "link_request text startIndex m =
     (case group text m 1 of
        Some linkText \<Rightarrow>
          (let linkUrl = group text m 2;
               linkStart = m_index m + 1;
               linkEnd = linkStart + length linkText
           in Some (UpdateTextStyle (Link linkUrl) (startIndex + linkStart) (startIndex + linkEnd)
                      ''link''))
      | None \<Rightarrow> None)"

text \<open>
  \<open>processInlineFormatting(requests, text, startIndex)\<close> appends to \<open>requests\<close>; the
  result is the array after the call, or \<open>None\<close> when the call does not return (an
  exception outside the \<open>try\<close>, or a loop that does not end). Only the italic loop is
  inside \<open>try { ... } catch\<close>, whose handler logs and goes on with what the array holds.
  \<open>fault\<close> gives, for the call with this \<open>startIndex\<close>, the engine fault met by
  \<open>italicRegex.exec\<close> (see \<open>exec_loop\<close>).
\<close>

definition processInlineFormatting :: "(nat \<Rightarrow> nat option) \<Rightarrow> request list \<Rightarrow> jsstring \<Rightarrow> nat
    \<Rightarrow> request list option" where
  "processInlineFormatting fault requests text startIndex =
     (case exec_loop boldRegex text (bold_request text startIndex) None 0 requests of
        Done rs1 \<Rightarrow>
          (case (case exec_loop italicRegex text (italic_request text startIndex)
                        (fault startIndex) 0 rs1 of
                   Done rs \<Rightarrow> Some rs
                 | Threw rs \<Rightarrow> Some rs
                 | Diverged \<Rightarrow> None) of
             Some rs2 \<Rightarrow>
               (case exec_loop linkRegex text (link_request text startIndex) None 0 rs2 of
                  Done rs3 \<Rightarrow> Some rs3
                | _ \<Rightarrow> None)
           | None \<Rightarrow> None)
      | _ \<Rightarrow> None)"

section \<open>convertMarkdownToRequests\<close>

text \<open>\<open>/^(#{1,6})\s+(.+)$/\<close>\<close>

definition headingRegex :: regex where
  "headingRegex =
     seqs Bol
       [Group 1 (Rep 1 (Some 6) True (ch CHR ''#'')), plus (Atom isWhiteSpace),
        Group 2 (plus (Atom isDot)), Eol]"

text \<open>\<open>/^(\s*)-\s+(.+)$/\<close>\<close>

definition bulletedListRegex :: regex where
  "bulletedListRegex =
     seqs Bol
       [Group 1 (star (Atom isWhiteSpace)), ch CHR ''-'', plus (Atom isWhiteSpace),
        Group 2 (plus (Atom isDot)), Eol]"

text \<open>\<open>/^(\s*)\d+\.\s+(.+)$/\<close>\<close>

definition numberedListRegex :: regex where
  "numberedListRegex =
     seqs Bol
       [Group 1 (star (Atom isWhiteSpace)), plus (Atom isDigit), ch CHR ''.'',
        plus (Atom isWhiteSpace), Group 2 (plus (Atom isDot)), Eol]"

text \<open>\<open>/^```([a-zA-Z0-9]*)?$/\<close>\<close>

definition codeStartRegex :: regex where
  "codeStartRegex =
     seqs Bol
       [ch CHR ''`'', ch CHR ''`'', ch CHR ''`'', opt (Group 1 (star (Atom isAlnum))), Eol]"

definition fence :: jsstring where
  "fence = js ''```''"

text \<open>
  The inner loop of the code-block branch:
  \<open>while (j < lines.length && !lines[j].trim().startsWith('```'))\<close>.
\<close>

function code_scan :: "jsstring list \<Rightarrow> nat \<Rightarrow> jsstring \<Rightarrow> nat \<times> jsstring" where
  "code_scan lines j codeContent =
     (if j < length lines \<and> \<not> startsWith (trim (lines ! j)) fence
      then code_scan lines (j + 1) (codeContent @ lines ! j @ [NL])
      else (j, codeContent))"
  by pat_completeness auto
termination
  by (relation "measure (\<lambda>(lines, j, codeContent). length lines - j)") auto

declare code_scan.simps [simp del]

text \<open>
  The two list branches differ in the pattern and the preset only: \<open>m\<close> is the match.
\<close>

definition list_item :: "jsstring \<Rightarrow> rmatch \<Rightarrow> string \<Rightarrow> nat \<Rightarrow> nat \<Rightarrow> request list
    \<Rightarrow> (nat \<times> nat \<times> request list) option" where
  "list_item line m preset i index requests =
     (case (group line m 1, group line m 2) of
        (Some spaces, Some text) \<Rightarrow>
          (let indent = length spaces in
           Some (i, index + length text + 1,
             requests
             @ [InsertText (text @ [NL]) index,
                CreateParagraphBullets index (index + length text) preset]
             @ (if 0 < indent
                then [UpdateParagraphStyle (Indent (indent * 18) 0) index (index + length text)
                        ''indentStart,indentFirstLine'']
                else [])))
      | _ \<Rightarrow> None)"

definition paragraph_line :: "(nat \<Rightarrow> nat option) \<Rightarrow> jsstring \<Rightarrow> nat \<Rightarrow> nat \<Rightarrow> request list
    \<Rightarrow> (nat \<times> nat \<times> request list) option" where
  "paragraph_line fault line i index requests =
     (case processInlineFormatting fault (requests @ [InsertText (line @ [NL]) index]) line index of
        Some requests' \<Rightarrow> Some (i, index + length line + 1, requests')
      | None \<Rightarrow> None)"

text \<open>
  One iteration of \<open>for (let i = 0; i < lines.length; i++)\<close>, for \<open>i < lines.length\<close>:
  the values of \<open>i\<close> (before \<open>i++\<close>), \<open>index\<close> and \<open>requests\<close> at the end of the
  iteration, or \<open>None\<close> when it does not get there. The code-block branch computes
  \<open>language\<close> and never uses it.
\<close>

definition loop_body :: "(nat \<Rightarrow> nat option) \<Rightarrow> jsstring list \<Rightarrow> nat \<Rightarrow> nat \<Rightarrow> request list
    \<Rightarrow> (nat \<times> nat \<times> request list) option" where
  "loop_body fault lines i index requests =
     (let line = lines ! i in
      if trim line = [] then Some (i, index + 1, requests @ [InsertText [NL] index])
      else
        case match_re line headingRegex of
          Some headingMatch \<Rightarrow>
            (case (group line headingMatch 1, group line headingMatch 2) of
               (Some hashes, Some text) \<Rightarrow>
                 (let level = length hashes in
                  Some (i, index + length text + 1,
                    requests
                    @ [InsertText (text @ [NL]) index,
                       UpdateParagraphStyle (NamedStyleType (''HEADING_'' @ decimal level)) index
                         (index + length text) ''namedStyleType'']))
             | _ \<Rightarrow> None)
        | None \<Rightarrow>
            (let bulletedListMatch = match_re line bulletedListRegex;
                 numberedListMatch = match_re line numberedListRegex
             in case bulletedListMatch of
                  Some m \<Rightarrow> list_item line m ''BULLET_DISC_CIRCLE_SQUARE'' i index requests
                | None \<Rightarrow>
                    (case numberedListMatch of
                       Some m \<Rightarrow> list_item line m ''NUMBERED_DECIMAL_NESTED'' i index requests
                     | None \<Rightarrow>
                         if startsWith (trim line) fence
                         then (case match_re (trim line) codeStartRegex of
                                 Some codeStartMatch \<Rightarrow>
                                   (let (j, codeContent) = code_scan lines (i + 1) [] in
                                    Some (j, index + length codeContent,
                                      requests
                                      @ [InsertText codeContent index,
                                         UpdateTextStyle CourierNewGray index
                                           (index + length codeContent)
                                           ''fontFamily,backgroundColor'']))
                               | None \<Rightarrow> paragraph_line fault line i index requests)
                         else paragraph_line fault line i index requests)))"

text \<open>The \<open>for\<close> loop: the final \<open>requests\<close> and \<open>index\<close>.\<close>

function loop :: "(nat \<Rightarrow> nat option) \<Rightarrow> jsstring list \<Rightarrow> nat \<Rightarrow> nat \<Rightarrow> request list
    \<Rightarrow> (request list \<times> nat) option" where
  "loop fault lines i index requests =
     (if i < length lines
      then case loop_body fault lines i index requests of
             None \<Rightarrow> None
           | Some (i', index', requests') \<Rightarrow> loop fault lines (i' + 1) index' requests'
      else Some (requests, index))"
  by pat_completeness auto
termination
proof (relation "measure (\<lambda>(fault, lines, i, index, requests). length lines - i)", goal_cases)
  case 1
  show ?case by simp
next
  case (2 fault lines i index requests x2 i' y index' requests')
  have scan: "j \<le> fst (code_scan ls j c)" for ls j c
  proof (induction ls j c rule: code_scan.induct)
    case (1 ls j c)
    show ?case
    proof (cases "j < length ls \<and> \<not> startsWith (trim (ls ! j)) fence")
      case True
      with "1.IH" have "j + 1 \<le> fst (code_scan ls (j + 1) (c @ ls ! j @ [NL]))" by simp
      with True show ?thesis by (subst code_scan.simps) simp
    next
      case False
      then show ?thesis by (subst code_scan.simps) auto
    qed
  qed
  from 2 have "loop_body fault lines i index requests = Some (i', index', requests')"
    by simp
  then have "i \<le> i'"
    using scan[of "i + 1" lines "[]"]
    by (auto simp: loop_body_def Let_def list_item_def paragraph_line_def
        split: if_splits option.splits prod.splits)
  with 2 show ?case by simp
qed

declare loop.simps [simp del]

text \<open>
  \<open>convertMarkdownToRequests(markdown)\<close> returns \<open>requests\<close>; \<open>run\<close> gives the final
  \<open>index\<close> with it. \<open>fault\<close> is the engine fault of \<open>processInlineFormatting\<close>; the
  source has no such argument.
\<close>

definition run :: "(nat \<Rightarrow> nat option) \<Rightarrow> jsstring \<Rightarrow> (request list \<times> nat) option" where
  "run fault markdown = loop fault (split markdown NL) 0 1 []"

definition convertMarkdownToRequests :: "(nat \<Rightarrow> nat option) \<Rightarrow> jsstring \<Rightarrow> request list option" where
  "convertMarkdownToRequests fault markdown = map_option fst (run fault markdown)"

text \<open>The engine behaves: no call of \<open>italicRegex.exec\<close> raises.\<close>

definition no_fault :: "nat \<Rightarrow> nat option" where
  "no_fault startIndex = None"


section \<open>Vocabulary of the properties\<close>

text \<open>
  The length a request inserts, the end of the range it carries, and the inline style
  (bold, italic, link) it sets.
\<close>

fun inserted :: "request \<Rightarrow> nat" where
  "inserted (InsertText t ix) = length t"
| "inserted (UpdateParagraphStyle sty a b f) = 0"
| "inserted (UpdateTextStyle sty a b f) = 0"
| "inserted (CreateParagraphBullets a b p) = 0"

fun range_end :: "request \<Rightarrow> nat option" where
  "range_end (InsertText t ix) = None"
| "range_end (UpdateParagraphStyle sty a b f) = Some b"
| "range_end (UpdateTextStyle sty a b f) = Some b"
| "range_end (CreateParagraphBullets a b p) = Some b"

fun inline_style :: "request \<Rightarrow> textStyle option" where
  "inline_style (UpdateTextStyle Bold a b f) = Some Bold"
| "inline_style (UpdateTextStyle Italic a b f) = Some Italic"
| "inline_style (UpdateTextStyle (Link u) a b f) = Some (Link u)"
| "inline_style r = None"

definition is_italic :: "request \<Rightarrow> bool" where
  "is_italic r = (inline_style r = Some Italic)"

text \<open>An inline style request whose range lies in \<open>[lo, hi]\<close>.\<close>

definition span_within :: "nat \<Rightarrow> nat \<Rightarrow> request \<Rightarrow> bool" where
  "span_within lo hi r =
     (case r of
        UpdateTextStyle sty a b f \<Rightarrow> inline_style r \<noteq> None \<and> lo \<le> a \<and> a \<le> b \<and> b \<le> hi
      | _ \<Rightarrow> False)"

text \<open>
  The cursor after a sequence of requests: it starts at 1 and each \<open>InsertText\<close> moves
  it by the length of its text.
\<close>

definition cursor_after :: "request list \<Rightarrow> nat" where
  "cursor_after rs = 1 + sum_list (map inserted rs)"

text \<open>
  The branch of the loop body a line takes, by the tests of the source in their order.
\<close>

datatype kind = Blank | Heading | Bulleted | Numbered | CodeStart | Paragraph

definition line_kind :: "jsstring \<Rightarrow> kind" where
  "line_kind line =
     (if trim line = [] then Blank
      else if match_re line headingRegex \<noteq> None then Heading
      else if match_re line bulletedListRegex \<noteq> None then Bulleted
      else if match_re line numberedListRegex \<noteq> None then Numbered
      else if startsWith (trim line) fence \<and> match_re (trim line) codeStartRegex \<noteq> None
        then CodeStart
      else Paragraph)"

text \<open>
  Every request of a sequence respects the cursor \<open>cur\<close> it is emitted at: an insertion is
  at the cursor, and a range ends at or before it.
\<close>

fun emitted_ok :: "nat \<Rightarrow> request list \<Rightarrow> bool" where
  "emitted_ok cur [] = True"
| "emitted_ok cur (InsertText t ix # rs) = (ix = cur \<and> emitted_ok (cur + length t) rs)"
| "emitted_ok cur (UpdateParagraphStyle sty a b f # rs) = (b \<le> cur \<and> emitted_ok cur rs)"
| "emitted_ok cur (UpdateTextStyle sty a b f # rs) = (b \<le> cur \<and> emitted_ok cur rs)"
| "emitted_ok cur (CreateParagraphBullets a b p # rs) = (b \<le> cur \<and> emitted_ok cur rs)"

section \<open>Properties of the matcher\<close>

lemma in_succeed_if [simp]: "y \<in> set (succeed_if c a) \<longleftrightarrow> c \<and> y = a"
  unfolding succeed_if_def by (cases c) simp_all

lemma succeed_if_Nil [simp]: "succeed_if c a = [] \<longleftrightarrow> \<not> c"
  unfolding succeed_if_def by (cases c) simp_all

lemma matches_Atom_iff:
  "y \<in> set (matches s (Atom P) x) \<longleftrightarrow> fst x < length s \<and> P (s ! fst x) \<and> y = (fst x + 1, snd x)"
  by (simp add: in_succeed_if)

lemma matches_Bol_iff: "y \<in> set (matches s Bol x) \<longleftrightarrow> fst x = 0 \<and> y = x"
  by (simp add: in_succeed_if)

lemma matches_Eol_iff: "y \<in> set (matches s Eol x) \<longleftrightarrow> fst x = length s \<and> y = x"
  by (simp add: in_succeed_if)

lemma matches_NegAhead_iff: "y \<in> set (matches s (NegAhead r) x) \<longleftrightarrow> matches s r x = [] \<and> y = x"
  by (simp add: in_succeed_if)

lemma matches_NegBehind1_iff:
  "y \<in> set (matches s (NegBehind1 P) x) \<longleftrightarrow>
     \<not> (0 < fst x \<and> fst x \<le> length s \<and> P (s ! (fst x - 1))) \<and> y = x"
  by (simp add: in_succeed_if)

lemma matches_Backref_iff:
  "y \<in> set (matches s (Backref n) x) \<longleftrightarrow>
     (case snd x n of
        None \<Rightarrow> y = x
      | Some (a, b) \<Rightarrow> fst x + (b - a) \<le> length s
          \<and> slice s (fst x) (fst x + (b - a)) = slice s a b \<and> y = (fst x + (b - a), snd x))"
proof (cases "snd x n")
  case None
  then show ?thesis by simp
next
  case (Some ab)
  then show ?thesis by (cases ab) (simp add: in_succeed_if)
qed

lemma matches_Seq_iff:
  "y \<in> set (matches s (Seq a b) x) \<longleftrightarrow> (\<exists>z. z \<in> set (matches s a x) \<and> y \<in> set (matches s b z))"
  by auto

lemma matches_Alt_iff:
  "y \<in> set (matches s (Alt a b) x) \<longleftrightarrow> y \<in> set (matches s a x) \<or> y \<in> set (matches s b x)"
  by simp

lemma matches_Group_iff:
  "y \<in> set (matches s (Group n r) x) \<longleftrightarrow>
     (\<exists>z. z \<in> set (matches s r x) \<and> y = (fst z, (snd z)(n \<mapsto> (fst x, fst z))))"
  unfolding matches.simps set_map image_iff Bex_def by (rule refl)

lemmas matches_iff = matches_Atom_iff matches_Bol_iff matches_Eol_iff matches_NegAhead_iff
  matches_NegBehind1_iff matches_Backref_iff matches_Seq_iff matches_Alt_iff matches_Group_iff

lemma rep_rel:
  assumes refl: "\<And>x. T x x"
    and trans: "\<And>x y z. T x y \<Longrightarrow> T y z \<Longrightarrow> T x z"
  shows "(\<And>x y. y \<in> set (m (fst x, \<lambda>k. if k \<in> gs then None else snd x k)) \<Longrightarrow> T x y)
    \<Longrightarrow> y \<in> set (rep n gs m mn mx g x) \<Longrightarrow> T x y"
proof (induction n gs m mn mx g x arbitrary: y rule: rep.induct)
  case (1 n gs m mn mx g x)
  note step = "1.prems"(1)
  show ?case
  proof (cases "mx = Some 0")
    case True
    with "1.prems"(2) show ?thesis
      by (simp add: rep.simps refl)
  next
    case False
    let ?xr = "(fst x, \<lambda>k. if k \<in> gs then None else snd x k)"
    from "1.prems"(2) False consider "y = x"
      | z where "z \<in> set (m ?xr)" "\<not> (mn = 0 \<and> (fst z \<le> fst x \<or> n < fst z))"
          "y \<in> set (rep n gs m (mn - 1) (map_option (\<lambda>k. k - 1) mx) g z)"
      by (subst (asm) rep.simps) (auto simp: Let_def split: if_splits)
    then show ?thesis
    proof cases
      case 1
      then show ?thesis by (simp add: refl)
    next
      case 2
      from "1.IH"[OF False HOL.refl 2(1) 2(2) step 2(3)] have "T z y" .
      moreover from 2(1) have "T x z" by (rule step)
      ultimately show ?thesis by (rule trans[rotated])
    qed
  qed
qed

lemma matches_bounds:
  "y \<in> set (matches s r x) \<Longrightarrow> fst x \<le> fst y \<and> (fst x \<le> length s \<longrightarrow> fst y \<le> length s)"
proof (induction r arbitrary: x y)
  case (Rep mn mx g r)
  from Rep.prems have mem: "y \<in> set (rep (length s) (groups r) (matches s r) mn mx g x)" by simp
  show ?case
    by (rule rep_rel[where T = "\<lambda>x y. fst x \<le> fst y \<and> (fst x \<le> length s \<longrightarrow> fst y \<le> length s)", OF _ _ _ mem])
      (use Rep.IH in \<open>fastforce+\<close>)
next
  case (Seq r1 r2)
  from Seq.prems obtain z where "z \<in> set (matches s r1 x)" "y \<in> set (matches s r2 z)"
    by auto
  with Seq.IH(1)[of z x] Seq.IH(2)[of y z] show ?case by simp
next
  case (Alt r1 r2)
  from Alt.prems have "y \<in> set (matches s r1 x) \<or> y \<in> set (matches s r2 x)" by simp
  with Alt.IH show ?case by blast
next
  case (Group n r)
  from Group.prems obtain z where "z \<in> set (matches s r x)" "fst y = fst z" by auto
  with Group.IH[of z x] show ?case by simp
next
  case (Backref n)
  then show ?case unfolding matches_Backref_iff by (auto split: option.splits)
qed (auto simp add: matches_iff simp del: matches.simps)

text \<open>
  So the test of \<open>rep\<close> for an iteration that consumes nothing is the one of
  \<open>RepeatMatcher\<close>, that the end index has not changed.
\<close>

lemma rep_empty_check:
  assumes "y \<in> set (matches s r (fst x, c))" and "fst x \<le> length s"
  shows "(fst y \<le> fst x \<or> length s < fst y) \<longleftrightarrow> fst y = fst x"
  using matches_bounds[OF assms(1)] assms(2) by auto

lemma matches_frame:
  "y \<in> set (matches s r x) \<Longrightarrow> k \<notin> groups r \<Longrightarrow> snd y k = snd x k"
proof (induction r arbitrary: x y)
  case (Rep mn mx g r)
  from Rep.prems have mem: "y \<in> set (rep (length s) (groups r) (matches s r) mn mx g x)" by simp
  have "k \<notin> groups r \<longrightarrow> snd y k = snd x k"
    by (rule rep_rel[where T = "\<lambda>x y. k \<notin> groups r \<longrightarrow> snd y k = snd x k", OF _ _ _ mem])
      (use Rep.IH in \<open>fastforce+\<close>)
  with Rep.prems show ?case by simp
next
  case (Seq r1 r2)
  from Seq.prems obtain z where "z \<in> set (matches s r1 x)" "y \<in> set (matches s r2 z)"
    by auto
  with Seq.IH[of z x] Seq.IH(2)[of y z] Seq.prems(2) show ?case by simp
next
  case (Alt r1 r2)
  from Alt.prems have k: "k \<notin> groups r1" "k \<notin> groups r2"
    and mem: "y \<in> set (matches s r1 x) \<or> y \<in> set (matches s r2 x)"
    by simp_all
  from mem Alt.IH(1)[OF _ k(1)] Alt.IH(2)[OF _ k(2)] show ?case by blast
next
  case (Group n r)
  from Group.prems obtain z where z: "z \<in> set (matches s r x)"
    and y: "y = (fst z, (snd z)(n \<mapsto> (fst x, fst z)))"
    by auto
  from Group.prems have "k \<noteq> n" "k \<notin> groups r" by simp_all
  with Group.IH[OF z] y show ?case by simp
next
  case (Backref n)
  then show ?case unfolding matches_Backref_iff by (auto split: option.splits)
qed (auto simp add: matches_iff simp del: matches.simps)

lemma matches_rep_atom:
  assumes "y \<in> set (matches s (Rep mn mx g (Atom P)) x)"
  shows "snd y = snd x \<and> fst x \<le> fst y \<and> (\<forall>k. fst x \<le> k \<and> k < fst y \<longrightarrow> k < length s \<and> P (s ! k))"
proof -
  from assms have mem: "y \<in> set (rep (length s) {} (matches s (Atom P)) mn mx g x)" by simp
  show ?thesis
  proof (rule rep_rel[where T = "\<lambda>x y. snd y = snd x \<and> fst x \<le> fst y
        \<and> (\<forall>k. fst x \<le> k \<and> k < fst y \<longrightarrow> k < length s \<and> P (s ! k))", OF _ _ _ mem])
    fix x y z :: mstate
    assume "snd y = snd x \<and> fst x \<le> fst y \<and> (\<forall>k. fst x \<le> k \<and> k < fst y \<longrightarrow> k < length s \<and> P (s ! k))"
      and "snd z = snd y \<and> fst y \<le> fst z \<and> (\<forall>k. fst y \<le> k \<and> k < fst z \<longrightarrow> k < length s \<and> P (s ! k))"
    then show "snd z = snd x \<and> fst x \<le> fst z \<and> (\<forall>k. fst x \<le> k \<and> k < fst z \<longrightarrow> k < length s \<and> P (s ! k))"
      by (smt (verit) le_trans not_le_imp_less)
  next
    fix x y :: mstate
    assume "y \<in> set (matches s (Atom P) (fst x, \<lambda>k. if k \<in> {} then None else snd x k))"
    then have "fst x < length s" "P (s ! fst x)" "y = (fst x + 1, snd x)"
      unfolding matches_Atom_iff by simp_all
    then show "snd y = snd x \<and> fst x \<le> fst y \<and> (\<forall>k. fst x \<le> k \<and> k < fst y \<longrightarrow> k < length s \<and> P (s ! k))"
      by (auto simp: less_Suc_eq_le dest: le_antisym)
  qed auto
qed

lemma rep_unfold_min:
  assumes "y \<in> set (rep n gs m (Suc mn) mx g x)" and "mx \<noteq> Some 0"
  shows "\<exists>z \<in> set (m (fst x, \<lambda>k. if k \<in> gs then None else snd x k)).
           y \<in> set (rep n gs m mn (map_option (\<lambda>k. k - 1) mx) g z)"
proof -
  have "rep n gs m (Suc mn) mx g x =
      concat (map (\<lambda>y. rep n gs m mn (map_option (\<lambda>k. k - 1) mx) g y)
        (m (fst x, \<lambda>k. if k \<in> gs then None else snd x k)))"
    using assms(2) by (subst rep.simps) (simp add: Let_def)
  with assms(1) show ?thesis by auto
qed

lemma matches_rep1:
  assumes "y \<in> set (matches s (Rep (Suc mn) mx g r) x)" and "mx \<noteq> Some 0"
  shows "\<exists>z \<in> set (matches s r (fst x, \<lambda>k. if k \<in> groups r then None else snd x k)). fst z \<le> fst y"
proof -
  from assms have "y \<in> set (rep (length s) (groups r) (matches s r) (Suc mn) mx g x)"
    by simp
  from rep_unfold_min[OF this assms(2)]
  obtain z where z: "z \<in> set (matches s r (fst x, \<lambda>k. if k \<in> groups r then None else snd x k))"
    and y: "y \<in> set (rep (length s) (groups r) (matches s r) mn (map_option (\<lambda>k. k - 1) mx) g z)"
    by blast
  have "fst z \<le> fst y"
  proof (rule rep_rel[where T = "\<lambda>x y. fst x \<le> fst y", OF _ _ _ y])
    fix x y :: mstate
    assume "y \<in> set (matches s r (fst x, \<lambda>k. if k \<in> groups r then None else snd x k))"
    from matches_bounds[OF this] show "fst x \<le> fst y" by simp
  qed simp_all
  with z show ?thesis by blast
qed

lemma matches_plus_atom:
  assumes "y \<in> set (matches s (plus (Atom P)) x)"
  shows "snd y = snd x \<and> fst x < fst y \<and> (\<forall>k. fst x \<le> k \<and> k < fst y \<longrightarrow> k < length s \<and> P (s ! k))"
proof -
  from assms have a: "y \<in> set (matches s (Rep (Suc 0) None True (Atom P)) x)"
    by (simp add: plus_def)
  have "None \<noteq> Some (0::nat)" by simp
  from matches_rep1[OF a this] have "fst x < fst y"
    by auto
  with matches_rep_atom[OF a] show ?thesis by simp
qed

lemma matches_star_atom:
  assumes "y \<in> set (matches s (star (Atom P)) x)"
  shows "snd y = snd x \<and> fst x \<le> fst y \<and> (\<forall>k. fst x \<le> k \<and> k < fst y \<longrightarrow> k < length s \<and> P (s ! k))"
  using assms matches_rep_atom[of y s 0 None True P x] by (simp add: star_def)

lemma matches_lazy_star_atom:
  assumes "y \<in> set (matches s (lazy_star (Atom P)) x)"
  shows "snd y = snd x \<and> fst x \<le> fst y \<and> (\<forall>k. fst x \<le> k \<and> k < fst y \<longrightarrow> k < length s \<and> P (s ! k))"
  using assms matches_rep_atom[of y s 0 None False P x] by (simp add: lazy_star_def)

lemma matches_ch_iff:
  "y \<in> set (matches s (ch a) x) \<longleftrightarrow> fst x < length s \<and> s ! fst x = of_char a \<and> y = (fst x + 1, snd x)"
  unfolding ch_def lit_def matches_Atom_iff by simp

lemma exec_SomeD:
  "exec re s i = Some m \<Longrightarrow>
     i \<le> m_index m \<and> m_index m \<le> length s
     \<and> (m_end m, snd (snd m)) \<in> set (matches s re (m_index m, Map.empty))"
proof (induction re s i rule: exec.induct)
  case (1 re s i)
  show ?case
  proof (cases "matches s re (i, Map.empty)")
    case Nil
    with "1.prems" have "exec re s (i + 1) = Some m" and "\<not> length s < i"
      by (subst (asm) exec.simps; simp split: if_splits)+
    with "1.IH"[OF _ Nil] show ?thesis by simp
  next
    case (Cons y ys)
    with "1.prems" have "m = (i, fst y, snd y)" and "\<not> length s < i"
      by (subst (asm) exec.simps; simp split: if_splits)+
    with Cons show ?thesis by (simp add: m_index_def m_end_def)
  qed
qed

section \<open>The patterns of processInlineFormatting\<close>

declare matches.simps [simp del]

lemma length_slice: "b \<le> length s \<Longrightarrow> length (slice s a b) = b - a"
  by (simp add: slice_def)

lemma boldRegex_match:
  assumes "y \<in> set (matches s boldRegex (i, c0))"
  shows "\<exists>q. snd y 1 = Some (i, i + 2) \<and> snd y 2 = Some (i + 2, q) \<and> i + 2 \<le> q
           \<and> fst y = q + 2 \<and> fst y \<le> length s"
proof -
  let ?D = "Alt (Seq (ch CHR ''*'') (ch CHR ''*'')) (Seq (ch CHR ''_'') (ch CHR ''_''))"
  let ?L = "lazy_star (Atom isDot)"
  from assms obtain d w where d: "d \<in> set (matches s ?D (i, c0))"
    and w: "w \<in> set (matches s ?L (fst d, (snd d)(1 \<mapsto> (i, fst d))))"
    and y: "y \<in> set (matches s (Backref 1) (fst w, (snd w)(2 \<mapsto> (fst d, fst w))))"
    by (auto simp: boldRegex_def matches_Seq_iff matches_Group_iff)
  from d have d': "d = (i + 2, c0)"
    by (auto simp: matches_Alt_iff matches_Seq_iff matches_ch_iff)
  from matches_lazy_star_atom[OF w] d' have w': "snd w = c0(1 \<mapsto> (i, i + 2))" "i + 2 \<le> fst w"
    by simp_all
  from y d' w' have "fst y = fst w + 2" "fst w + 2 \<le> length s"
    "snd y = (c0(1 \<mapsto> (i, i + 2)))(2 \<mapsto> (i + 2, fst w))"
    by (simp_all add: matches_Backref_iff)
  with w' show ?thesis by simp
qed

lemma italicRegex_match:
  assumes "y \<in> set (matches s italicRegex (i, c0))"
  shows "\<exists>q. snd y 2 = Some (i + 1, q) \<and> i + 1 \<le> q \<and> fst y = q + 1 \<and> fst y \<le> length s"
proof -
  let ?D = "Alt (ch CHR ''*'') (ch CHR ''_'')"
  let ?L = "lazy_star (Atom isDot)"
  from assms obtain d w where d: "d \<in> set (matches s ?D (i, c0))"
    and w: "w \<in> set (matches s ?L (fst d, (snd d)(1 \<mapsto> (i, fst d))))"
    and y: "y \<in> set (matches s (Seq (Backref 1) (NegAhead (Backref 1)))
                (fst w, (snd w)(2 \<mapsto> (fst d, fst w))))"
    by (auto simp: italicRegex_def matches_Seq_iff matches_Group_iff
      matches_NegBehind1_iff matches_NegAhead_iff)
  from d have d': "d = (i + 1, c0)"
    by (auto simp: matches_Alt_iff matches_ch_iff)
  from matches_lazy_star_atom[OF w] d' have w': "snd w = c0(1 \<mapsto> (i, i + 1))" "i + 1 \<le> fst w"
    by simp_all
  from y d' w' have "fst y = fst w + 1" "fst w + 1 \<le> length s"
    "snd y = (c0(1 \<mapsto> (i, i + 1)))(2 \<mapsto> (i + 1, fst w))"
    by (auto simp: matches_Seq_iff matches_Backref_iff matches_NegAhead_iff)
  with w' show ?thesis by simp
qed

lemma linkRegex_match:
  assumes "y \<in> set (matches s linkRegex (i, c0))"
  shows "\<exists>q. snd y 1 = Some (i + 1, q) \<and> i + 1 \<le> q \<and> q < fst y \<and> fst y \<le> length s"
proof -
  let ?L = "lazy_star (Atom isDot)"
  from assms obtain w v where w: "w \<in> set (matches s ?L (i + 1, c0))"
    and v: "v \<in> set (matches s ?L (fst w + 2, (snd w)(1 \<mapsto> (i + 1, fst w))))"
    and y: "y = (fst v + 1, (snd v)(2 \<mapsto> (fst w + 2, fst v)))" "fst v < length s"
    by (auto simp: linkRegex_def matches_Seq_iff matches_Group_iff matches_ch_iff)
  from matches_lazy_star_atom[OF w] have w': "snd w = c0" "i + 1 \<le> fst w"
    by simp_all
  from matches_lazy_star_atom[OF v] w' have v': "snd v = c0(1 \<mapsto> (i + 1, fst w))" "fst w + 2 \<le> fst v"
    by simp_all
  from y v' w' show ?thesis by simp
qed

lemma bold_exec:
  assumes "exec boldRegex s li = Some m"
  shows "li < m_end m \<and> m_end m \<le> length s
    \<and> (\<exists>a b. bold_request s startIndex m = Some (UpdateTextStyle Bold a b ''bold'')
          \<and> startIndex \<le> a \<and> a \<le> b \<and> b \<le> startIndex + length s)"
proof -
  from exec_SomeD[OF assms] have i: "li \<le> m_index m" "m_index m \<le> length s"
    and y: "(m_end m, snd (snd m)) \<in> set (matches s boldRegex (m_index m, Map.empty))"
    by simp_all
  from boldRegex_match[OF y] obtain q where q: "snd (snd m) 1 = Some (m_index m, m_index m + 2)"
    "snd (snd m) 2 = Some (m_index m + 2, q)" "m_index m + 2 \<le> q" "m_end m = q + 2"
    "m_end m \<le> length s"
    by auto
  then have "bold_request s startIndex m
      = Some (UpdateTextStyle Bold (startIndex + (m_index m + 2)) (startIndex + q) ''bold'')"
    by (simp add: bold_request_def group_def length_slice Let_def)
  with i q show ?thesis by simp
qed

lemma italic_exec:
  assumes "exec italicRegex s li = Some m"
  shows "li < m_end m \<and> m_end m \<le> length s
    \<and> (\<exists>a b. italic_request s startIndex m = Some (UpdateTextStyle Italic a b ''italic'')
          \<and> startIndex \<le> a \<and> a \<le> b \<and> b \<le> startIndex + length s)"
proof -
  from exec_SomeD[OF assms] have i: "li \<le> m_index m" "m_index m \<le> length s"
    and y: "(m_end m, snd (snd m)) \<in> set (matches s italicRegex (m_index m, Map.empty))"
    by simp_all
  from italicRegex_match[OF y] obtain q where q:
    "snd (snd m) 2 = Some (m_index m + 1, q)" "m_index m + 1 \<le> q" "m_end m = q + 1"
    "m_end m \<le> length s"
    by auto
  then have "italic_request s startIndex m
      = Some (UpdateTextStyle Italic (startIndex + (m_index m + 1)) (startIndex + q) ''italic'')"
    by (simp add: italic_request_def group_def length_slice Let_def)
  with i q show ?thesis by simp
qed

lemma link_exec:
  assumes "exec linkRegex s li = Some m"
  shows "li < m_end m \<and> m_end m \<le> length s
    \<and> (\<exists>u a b. link_request s startIndex m = Some (UpdateTextStyle (Link u) a b ''link'')
          \<and> startIndex \<le> a \<and> a \<le> b \<and> b \<le> startIndex + length s)"
proof -
  from exec_SomeD[OF assms] have i: "li \<le> m_index m" "m_index m \<le> length s"
    and y: "(m_end m, snd (snd m)) \<in> set (matches s linkRegex (m_index m, Map.empty))"
    by simp_all
  from linkRegex_match[OF y] obtain q where q:
    "snd (snd m) 1 = Some (m_index m + 1, q)" "m_index m + 1 \<le> q" "q < m_end m"
    "m_end m \<le> length s"
    by auto
  then have "link_request s startIndex m
      = Some (UpdateTextStyle (Link (group s m 2)) (startIndex + (m_index m + 1)) (startIndex + q)
          ''link'')"
    by (simp add: link_request_def group_def length_slice Let_def)
  with i q show ?thesis by simp
qed

lemma exec_loop_shape:
  assumes step: "\<And>li m. exec re s li = Some m \<Longrightarrow>
      li < m_end m \<and> m_end m \<le> length s \<and> (\<exists>r. body m = Some r \<and> Q r)"
  shows "\<exists>out. (\<forall>r \<in> set out. Q r)
      \<and> (\<forall>rs. exec_loop re s body None li rs = Done (rs @ out))
      \<and> (\<forall>rs k. exec_loop re s body (Some k) li rs
            = (if k \<le> length out then Threw (rs @ take k out) else Done (rs @ out)))"
proof (induction "length s - li" arbitrary: li rule: less_induct)
  case less
  show ?case
  proof (cases "exec re s li")
    case None
    have "\<forall>rs. exec_loop re s body None li rs = Done (rs @ [])"
      using None by (subst exec_loop.simps) simp
    moreover have "\<forall>rs k. exec_loop re s body (Some k) li rs
        = (if k \<le> length ([]::request list) then Threw (rs @ take k []) else Done (rs @ []))"
      using None by (subst exec_loop.simps) simp
    ultimately show ?thesis by (intro exI[of _ "[]"]) simp
  next
    case (Some m)
    from step[OF Some] obtain r where m: "li < m_end m" "m_end m \<le> length s"
      and r: "body m = Some r" "Q r"
      by blast
    from m have "length s - m_end m < length s - li" by simp
    from less[OF this] obtain out where out: "\<forall>r \<in> set out. Q r"
      "\<And>rs. exec_loop re s body None (m_end m) rs = Done (rs @ out)"
      "\<And>rs k. exec_loop re s body (Some k) (m_end m) rs
          = (if k \<le> length out then Threw (rs @ take k out) else Done (rs @ out))"
      by blast
    have a: "\<forall>rs. exec_loop re s body None li rs = Done (rs @ r # out)"
      using Some m r out(2) by (subst exec_loop.simps) simp
    have b: "\<forall>rs k. exec_loop re s body (Some k) li rs
        = (if k \<le> length (r # out) then Threw (rs @ take k (r # out)) else Done (rs @ r # out))"
    proof (intro allI)
      fix rs k
      show "exec_loop re s body (Some k) li rs
        = (if k \<le> length (r # out) then Threw (rs @ take k (r # out)) else Done (rs @ r # out))"
      proof (cases k)
        case 0
        then show ?thesis by (subst exec_loop.simps) simp
      next
        case (Suc k')
        then show ?thesis
          using Some m r out(3)[of k' "rs @ [r]"] by (subst exec_loop.simps) simp
      qed
    qed
    from out(1) r(2) a b show ?thesis
      by (intro exI[of _ "r # out"]) simp
  qed
qed

lemma processInlineFormatting_shape:
  "\<exists>bs its ls.
     (\<forall>r \<in> set (bs @ its @ ls). span_within startIndex (startIndex + length text) r)
     \<and> (\<forall>r \<in> set (bs @ ls). \<not> is_italic r) \<and> (\<forall>r \<in> set its. is_italic r)
     \<and> (\<forall>fault rs. processInlineFormatting fault rs text startIndex
           = Some (rs @ bs @ (case fault startIndex of None \<Rightarrow> its | Some k \<Rightarrow> take k its) @ ls))"
proof -
  let ?W = "span_within startIndex (startIndex + length text)"
  have "\<exists>out. (\<forall>r \<in> set out. ?W r \<and> \<not> is_italic r)
      \<and> (\<forall>rs. exec_loop boldRegex text (bold_request text startIndex) None 0 rs = Done (rs @ out))
      \<and> (\<forall>rs k. exec_loop boldRegex text (bold_request text startIndex) (Some k) 0 rs
            = (if k \<le> length out then Threw (rs @ take k out) else Done (rs @ out)))"
    by (rule exec_loop_shape) (use bold_exec[where s = "text" and startIndex = startIndex] in
        \<open>fastforce simp: span_within_def is_italic_def\<close>)
  then obtain bs where bs: "\<forall>r \<in> set bs. ?W r \<and> \<not> is_italic r"
    "\<And>rs. exec_loop boldRegex text (bold_request text startIndex) None 0 rs = Done (rs @ bs)"
    by blast
  have "\<exists>out. (\<forall>r \<in> set out. ?W r \<and> is_italic r)
      \<and> (\<forall>rs. exec_loop italicRegex text (italic_request text startIndex) None 0 rs = Done (rs @ out))
      \<and> (\<forall>rs k. exec_loop italicRegex text (italic_request text startIndex) (Some k) 0 rs
            = (if k \<le> length out then Threw (rs @ take k out) else Done (rs @ out)))"
    by (rule exec_loop_shape) (use italic_exec[where s = "text" and startIndex = startIndex] in
        \<open>fastforce simp: span_within_def is_italic_def\<close>)
  then obtain its where its: "\<forall>r \<in> set its. ?W r \<and> is_italic r"
    "\<And>rs. exec_loop italicRegex text (italic_request text startIndex) None 0 rs = Done (rs @ its)"
    "\<And>rs k. exec_loop italicRegex text (italic_request text startIndex) (Some k) 0 rs
            = (if k \<le> length its then Threw (rs @ take k its) else Done (rs @ its))"
    by blast
  have "\<exists>out. (\<forall>r \<in> set out. ?W r \<and> \<not> is_italic r)
      \<and> (\<forall>rs. exec_loop linkRegex text (link_request text startIndex) None 0 rs = Done (rs @ out))
      \<and> (\<forall>rs k. exec_loop linkRegex text (link_request text startIndex) (Some k) 0 rs
            = (if k \<le> length out then Threw (rs @ take k out) else Done (rs @ out)))"
    by (rule exec_loop_shape) (use link_exec[where s = "text" and startIndex = startIndex] in
        \<open>fastforce simp: span_within_def is_italic_def\<close>)
  then obtain ls where ls: "\<forall>r \<in> set ls. ?W r \<and> \<not> is_italic r"
    "\<And>rs. exec_loop linkRegex text (link_request text startIndex) None 0 rs = Done (rs @ ls)"
    by blast
  have "processInlineFormatting fault rs text startIndex
      = Some (rs @ bs @ (case fault startIndex of None \<Rightarrow> its | Some k \<Rightarrow> take k its) @ ls)"
    for fault rs
  proof (cases "fault startIndex")
    case None
    then show ?thesis
      by (simp add: processInlineFormatting_def bs(2) its(2) ls(2))
  next
    case (Some k)
    then show ?thesis
      by (simp add: processInlineFormatting_def bs(2) its(3) ls(2))
  qed
  with bs(1) its(1) ls(1) show ?thesis
    by (intro exI[of _ bs] exI[of _ its] exI[of _ ls]) auto
qed

section \<open>Which branch a line takes\<close>

lemma dropWhile_snoc_keep: "\<not> P c \<Longrightarrow> dropWhile P (xs @ [c]) = dropWhile P xs @ [c]"
  by (induction xs) auto


lemma trim_Cons:
  assumes "dropWhile isWhiteSpace s = c # t"
  shows "\<exists>u. trim s = c # u"
proof -
  from assms have "\<not> isWhiteSpace c"
    using hd_dropWhile[of isWhiteSpace s] by auto
  then have "dropWhile isWhiteSpace (rev t @ [c]) = dropWhile isWhiteSpace (rev t) @ [c]"
    by (rule dropWhile_snoc_keep)
  with assms show ?thesis by (simp add: trim_def)
qed

lemma dropWhile_at:
  assumes "q < length s" and "\<forall>k<q. P (s ! k)" and "\<not> P (s ! q)"
  shows "dropWhile P s = s ! q # drop (Suc q) s"
proof -
  have all: "\<And>x. x \<in> set (take q s) \<Longrightarrow> P x"
    using assms(1,2) by (auto simp: in_set_conv_nth)
  have "dropWhile P s = dropWhile P (take q s @ drop q s)"
    by simp
  also have "\<dots> = dropWhile P (drop q s)"
    using all by (rule dropWhile_append2)
  also have "\<dots> = dropWhile P (s ! q # drop (Suc q) s)"
    using assms(1) by (simp add: Cons_nth_drop_Suc)
  also have "\<dots> = s ! q # drop (Suc q) s"
    using assms(3) by simp
  finally show ?thesis .
qed

lemma matches_rep1_atom:
  assumes "y \<in> set (matches s (Rep (Suc mn) mx g (Atom P)) x)" and "mx \<noteq> Some 0"
  shows "snd y = snd x \<and> fst x < fst y \<and> (\<forall>k. fst x \<le> k \<and> k < fst y \<longrightarrow> k < length s \<and> P (s ! k))"
proof -
  from matches_rep1[OF assms] have "fst x < fst y"
    by (auto simp: matches_Atom_iff)
  with matches_rep_atom[OF assms(1)] show ?thesis by simp
qed

lemma exec_Bol:
  assumes "exec (Seq Bol r) s 0 = Some m"
  shows "m_index m = 0 \<and> (m_end m, snd (snd m)) \<in> set (matches s r (0, Map.empty))"
  using exec_SomeD[OF assms] by (auto simp: matches_Seq_iff matches_Bol_iff)

lemma group_Some: "snd (snd m) k = Some ab \<Longrightarrow> \<exists>g. group s m k = Some g"
  by (simp add: group_def)

lemma headingRegex_match:
  assumes "match_re line headingRegex = Some m"
  shows "(\<exists>h t. group line m 1 = Some h \<and> group line m 2 = Some t)
    \<and> (\<exists>t. dropWhile isWhiteSpace line = of_char CHR ''#'' # t)"
proof -
  from assms have "(m_end m, snd (snd m)) \<in> set (matches line
      (seqs (Group 1 (Rep 1 (Some 6) True (ch CHR ''#'')))
         [plus (Atom isWhiteSpace), Group 2 (plus (Atom isDot)), Eol]) (0, Map.empty))"
    using exec_Bol[of _ line m] by (simp add: match_re_def headingRegex_def)
  then obtain h w t where h: "h \<in> set (matches line (Rep (Suc 0) (Some 6) True (Atom (lit CHR ''#''))) (0, Map.empty))"
    and w: "w \<in> set (matches line (plus (Atom isWhiteSpace)) (fst h, (snd h)(1 \<mapsto> (0, fst h))))"
    and t: "t \<in> set (matches line (plus (Atom isDot)) w)"
    and c: "snd (snd m) = (snd t)(2 \<mapsto> (fst w, fst t))"
    by (auto simp: matches_Seq_iff matches_Group_iff matches_Eol_iff ch_def)
  from matches_rep1_atom[OF h] have h': "0 < length line" "line ! 0 = of_char CHR ''#''"
    by (auto simp: lit_def)
  from matches_plus_atom[OF w] matches_plus_atom[OF t] c
  have "snd (snd m) 1 = Some (0, fst h)" "snd (snd m) 2 = Some (fst w, fst t)"
    by simp_all
  then have g: "\<exists>h t. group line m 1 = Some h \<and> group line m 2 = Some t"
    by (simp add: group_def)
  have "\<not> isWhiteSpace (of_char CHR ''#'')"
    by (simp add: isWhiteSpace_def)
  with h' have "dropWhile isWhiteSpace line = line ! 0 # drop (Suc 0) line"
    by (intro dropWhile_at) simp_all
  with g h' show ?thesis by simp
qed

lemma bulletedListRegex_match:
  assumes "match_re line bulletedListRegex = Some m"
  shows "(\<exists>sp t. group line m 1 = Some sp \<and> group line m 2 = Some t)
    \<and> (\<exists>t. dropWhile isWhiteSpace line = of_char CHR ''-'' # t)"
proof -
  from assms have "(m_end m, snd (snd m)) \<in> set (matches line
      (seqs (Group 1 (star (Atom isWhiteSpace)))
         [ch CHR ''-'', plus (Atom isWhiteSpace), Group 2 (plus (Atom isDot)), Eol]) (0, Map.empty))"
    using exec_Bol[of _ line m] by (simp add: match_re_def bulletedListRegex_def)
  then obtain sp w t where sp: "sp \<in> set (matches line (star (Atom isWhiteSpace)) (0, Map.empty))"
    and d: "fst sp < length line" "line ! fst sp = of_char CHR ''-''"
    and w: "w \<in> set (matches line (plus (Atom isWhiteSpace)) (fst sp + 1, (snd sp)(1 \<mapsto> (0, fst sp))))"
    and t: "t \<in> set (matches line (plus (Atom isDot)) w)"
    and c: "snd (snd m) = (snd t)(2 \<mapsto> (fst w, fst t))"
    by (auto simp: matches_Seq_iff matches_Group_iff matches_Eol_iff matches_ch_iff)
  from matches_plus_atom[OF w] matches_plus_atom[OF t] c
  have "snd (snd m) 1 = Some (0, fst sp)" "snd (snd m) 2 = Some (fst w, fst t)"
    by simp_all
  then have g: "\<exists>sp t. group line m 1 = Some sp \<and> group line m 2 = Some t"
    by (simp add: group_def)
  from matches_star_atom[OF sp] have "\<forall>k<fst sp. isWhiteSpace (line ! k)"
    by simp
  moreover have "\<not> isWhiteSpace (of_char CHR ''-'')"
    by (simp add: isWhiteSpace_def)
  ultimately have "dropWhile isWhiteSpace line = line ! fst sp # drop (Suc (fst sp)) line"
    using d by (intro dropWhile_at) simp_all
  with g d show ?thesis by simp
qed

lemma numberedListRegex_match:
  assumes "match_re line numberedListRegex = Some m"
  shows "(\<exists>sp t. group line m 1 = Some sp \<and> group line m 2 = Some t)
    \<and> (\<exists>c t. dropWhile isWhiteSpace line = c # t \<and> isDigit c)"
proof -
  from assms have "(m_end m, snd (snd m)) \<in> set (matches line
      (seqs (Group 1 (star (Atom isWhiteSpace)))
         [plus (Atom isDigit), ch CHR ''.'', plus (Atom isWhiteSpace), Group 2 (plus (Atom isDot)),
          Eol]) (0, Map.empty))"
    using exec_Bol[of _ line m] by (simp add: match_re_def numberedListRegex_def)
  then obtain sp n w t where sp: "sp \<in> set (matches line (star (Atom isWhiteSpace)) (0, Map.empty))"
    and n: "n \<in> set (matches line (plus (Atom isDigit)) (fst sp, (snd sp)(1 \<mapsto> (0, fst sp))))"
    and w: "w \<in> set (matches line (plus (Atom isWhiteSpace)) (fst n + 1, snd n))"
    and t: "t \<in> set (matches line (plus (Atom isDot)) w)"
    and c: "snd (snd m) = (snd t)(2 \<mapsto> (fst w, fst t))"
    by (auto simp: matches_Seq_iff matches_Group_iff matches_Eol_iff matches_ch_iff)
  from matches_plus_atom[OF n] matches_plus_atom[OF w] matches_plus_atom[OF t] c
  have "snd (snd m) 1 = Some (0, fst sp)" "snd (snd m) 2 = Some (fst w, fst t)"
    by simp_all
  then have g: "\<exists>sp t. group line m 1 = Some sp \<and> group line m 2 = Some t"
    by (simp add: group_def)
  from matches_plus_atom[OF n] have d: "fst sp < length line" "isDigit (line ! fst sp)"
    by auto
  from matches_star_atom[OF sp] have "\<forall>k<fst sp. isWhiteSpace (line ! k)"
    by simp
  moreover have "\<not> isWhiteSpace (line ! fst sp)"
    using d(2) by (auto simp: isWhiteSpace_def isDigit_def word_le_nat_alt)
  ultimately have "dropWhile isWhiteSpace line = line ! fst sp # drop (Suc (fst sp)) line"
    using d by (intro dropWhile_at) simp_all
  with g d show ?thesis by simp
qed


section \<open>The loop\<close>

lemma first_chars_distinct:
  "(of_char CHR ''#'' :: jschar) \<noteq> of_char CHR ''-''"
  "(of_char CHR ''#'' :: jschar) \<noteq> of_char CHR ''`''"
  "(of_char CHR ''-'' :: jschar) \<noteq> of_char CHR ''`''"
  "\<not> isDigit (of_char CHR ''#'')"
  "\<not> isDigit (of_char CHR ''-'')"
  "\<not> isDigit (of_char CHR ''`'')"
  by (simp_all add: isDigit_def)

lemma heading_kind:
  assumes "match_re line headingRegex = Some m"
  shows "line_kind line = Heading"
proof -
  from headingRegex_match[OF assms] obtain t where "dropWhile isWhiteSpace line = of_char CHR ''#'' # t"
    by blast
  from trim_Cons[OF this] have "trim line \<noteq> []" by auto
  with assms show ?thesis by (simp add: line_kind_def)
qed

lemma bulleted_kind:
  assumes "match_re line bulletedListRegex = Some m"
  shows "line_kind line = Bulleted"
proof -
  from bulletedListRegex_match[OF assms] obtain t
    where t: "dropWhile isWhiteSpace line = of_char CHR ''-'' # t"
    by blast
  from trim_Cons[OF this] have "trim line \<noteq> []" by auto
  moreover have "match_re line headingRegex = None"
  proof (cases "match_re line headingRegex")
    case (Some hm)
    from headingRegex_match[OF this] t first_chars_distinct show ?thesis by auto
  qed simp
  ultimately show ?thesis using assms by (simp add: line_kind_def)
qed

lemma numbered_kind:
  assumes "match_re line numberedListRegex = Some m"
  shows "line_kind line = Numbered"
proof -
  from numberedListRegex_match[OF assms] obtain c t
    where t: "dropWhile isWhiteSpace line = c # t" "isDigit c"
    by blast
  from trim_Cons[OF t(1)] have "trim line \<noteq> []" by auto
  moreover have "match_re line headingRegex = None"
  proof (cases "match_re line headingRegex")
    case (Some hm)
    from headingRegex_match[OF this] t first_chars_distinct show ?thesis by auto
  qed simp
  moreover have "match_re line bulletedListRegex = None"
  proof (cases "match_re line bulletedListRegex")
    case (Some hm)
    from bulletedListRegex_match[OF this] t first_chars_distinct show ?thesis by auto
  qed simp
  ultimately show ?thesis using assms by (simp add: line_kind_def)
qed


lemma line_kind_D:
  "line_kind line = Blank \<Longrightarrow> trim line = []"
  "line_kind line = Heading \<Longrightarrow> trim line \<noteq> [] \<and> (\<exists>m. match_re line headingRegex = Some m)"
  "line_kind line = Bulleted \<Longrightarrow> trim line \<noteq> [] \<and> match_re line headingRegex = None
     \<and> (\<exists>m. match_re line bulletedListRegex = Some m)"
  "line_kind line = Numbered \<Longrightarrow> trim line \<noteq> [] \<and> match_re line headingRegex = None
     \<and> match_re line bulletedListRegex = None \<and> (\<exists>m. match_re line numberedListRegex = Some m)"
  "line_kind line = CodeStart \<Longrightarrow> trim line \<noteq> [] \<and> match_re line headingRegex = None
     \<and> match_re line bulletedListRegex = None \<and> match_re line numberedListRegex = None
     \<and> startsWith (trim line) fence \<and> (\<exists>m. match_re (trim line) codeStartRegex = Some m)"
  "line_kind line = Paragraph \<Longrightarrow> trim line \<noteq> [] \<and> match_re line headingRegex = None
     \<and> match_re line bulletedListRegex = None \<and> match_re line numberedListRegex = None
     \<and> (\<not> startsWith (trim line) fence \<or> match_re (trim line) codeStartRegex = None)"
proof -
  define t where "t = (trim line = [])"
  define h where "h = match_re line headingRegex"
  define b where "b = match_re line bulletedListRegex"
  define n where "n = match_re line numberedListRegex"
  define f where "f = startsWith (trim line) fence"
  define c where "c = match_re (trim line) codeStartRegex"
  have k: "line_kind line =
     (if t then Blank
      else if h \<noteq> None then Heading
      else if b \<noteq> None then Bulleted
      else if n \<noteq> None then Numbered
      else if f \<and> c \<noteq> None then CodeStart
      else Paragraph)"
    by (simp add: line_kind_def t_def h_def b_def n_def f_def c_def)
  have "(line_kind line = Blank \<longrightarrow> t)
    \<and> (line_kind line = Heading \<longrightarrow> \<not> t \<and> (\<exists>m. h = Some m))
    \<and> (line_kind line = Bulleted \<longrightarrow> \<not> t \<and> h = None \<and> (\<exists>m. b = Some m))
    \<and> (line_kind line = Numbered \<longrightarrow> \<not> t \<and> h = None \<and> b = None \<and> (\<exists>m. n = Some m))
    \<and> (line_kind line = CodeStart \<longrightarrow> \<not> t \<and> h = None \<and> b = None \<and> n = None \<and> f \<and> (\<exists>m. c = Some m))
    \<and> (line_kind line = Paragraph \<longrightarrow> \<not> t \<and> h = None \<and> b = None \<and> n = None \<and> (\<not> f \<or> c = None))"
    unfolding k by (cases t; cases h; cases b; cases n; cases f; cases c; auto)
  then show "line_kind line = Blank \<Longrightarrow> trim line = []"
    "line_kind line = Heading \<Longrightarrow> trim line \<noteq> [] \<and> (\<exists>m. match_re line headingRegex = Some m)"
    "line_kind line = Bulleted \<Longrightarrow> trim line \<noteq> [] \<and> match_re line headingRegex = None
       \<and> (\<exists>m. match_re line bulletedListRegex = Some m)"
    "line_kind line = Numbered \<Longrightarrow> trim line \<noteq> [] \<and> match_re line headingRegex = None
       \<and> match_re line bulletedListRegex = None \<and> (\<exists>m. match_re line numberedListRegex = Some m)"
    "line_kind line = CodeStart \<Longrightarrow> trim line \<noteq> [] \<and> match_re line headingRegex = None
       \<and> match_re line bulletedListRegex = None \<and> match_re line numberedListRegex = None
       \<and> startsWith (trim line) fence \<and> (\<exists>m. match_re (trim line) codeStartRegex = Some m)"
    "line_kind line = Paragraph \<Longrightarrow> trim line \<noteq> [] \<and> match_re line headingRegex = None
       \<and> match_re line bulletedListRegex = None \<and> match_re line numberedListRegex = None
       \<and> (\<not> startsWith (trim line) fence \<or> match_re (trim line) codeStartRegex = None)"
    unfolding t_def h_def b_def n_def f_def c_def by (blast, blast, blast, blast, blast, fast)
qed

subsection \<open>What one iteration pushes\<close>

lemma loop_body_Blank:
  assumes "line_kind (lines ! i) = Blank"
  shows "loop_body fault lines i index rs = Some (i, index + 1, rs @ [InsertText [NL] index])"
  using line_kind_D(1)[OF assms] by (simp add: loop_body_def)

lemma loop_body_Heading:
  assumes "line_kind (lines ! i) = Heading"
  shows "\<exists>m hashes text. match_re (lines ! i) headingRegex = Some m
      \<and> group (lines ! i) m 1 = Some hashes \<and> group (lines ! i) m 2 = Some text
      \<and> (\<forall>fault rs. loop_body fault lines i index rs
        = Some (i, index + length text + 1,
            rs @ [InsertText (text @ [NL]) index,
                  UpdateParagraphStyle (NamedStyleType (''HEADING_'' @ decimal (length hashes)))
                    index (index + length text) ''namedStyleType'']))"
proof -
  from line_kind_D(2)[OF assms] obtain m
    where m: "match_re (lines ! i) headingRegex = Some m" "trim (lines ! i) \<noteq> []"
    by blast
  from headingRegex_match[OF m(1)] obtain h t
    where "group (lines ! i) m 1 = Some h" "group (lines ! i) m 2 = Some t"
    by blast
  with m show ?thesis by (simp add: loop_body_def)
qed

lemma loop_body_Bulleted:
  assumes "line_kind (lines ! i) = Bulleted"
  shows "\<exists>m. match_re (lines ! i) bulletedListRegex = Some m
      \<and> (\<forall>fault rs. loop_body fault lines i index rs
            = list_item (lines ! i) m ''BULLET_DISC_CIRCLE_SQUARE'' i index rs)"
proof -
  from line_kind_D(3)[OF assms] obtain m
    where "trim (lines ! i) \<noteq> []" "match_re (lines ! i) headingRegex = None"
      "match_re (lines ! i) bulletedListRegex = Some m"
    by blast
  then show ?thesis by (simp add: loop_body_def Let_def)
qed

lemma loop_body_Numbered:
  assumes "line_kind (lines ! i) = Numbered"
  shows "\<exists>m. match_re (lines ! i) numberedListRegex = Some m
      \<and> (\<forall>fault rs. loop_body fault lines i index rs
            = list_item (lines ! i) m ''NUMBERED_DECIMAL_NESTED'' i index rs)"
proof -
  from line_kind_D(4)[OF assms] obtain m
    where "trim (lines ! i) \<noteq> []" "match_re (lines ! i) headingRegex = None"
      "match_re (lines ! i) bulletedListRegex = None"
      "match_re (lines ! i) numberedListRegex = Some m"
    by blast
  then show ?thesis by (simp add: loop_body_def Let_def)
qed

lemma list_item_eq:
  assumes "group line m 1 = Some spaces" and "group line m 2 = Some text"
  shows "list_item line m preset i index rs
      = Some (i, index + length text + 1,
          rs @ InsertText (text @ [NL]) index
             # CreateParagraphBullets index (index + length text) preset
             # (if 0 < length spaces
                then [UpdateParagraphStyle (Indent (length spaces * 18) 0) index
                        (index + length text) ''indentStart,indentFirstLine'']
                else []))"
  using assms by (simp add: list_item_def)

lemma loop_body_CodeStart:
  assumes "line_kind (lines ! i) = CodeStart"
  shows "loop_body fault lines i index rs
      = Some (fst (code_scan lines (i + 1) []), index + length (snd (code_scan lines (i + 1) [])),
          rs @ [InsertText (snd (code_scan lines (i + 1) [])) index,
                UpdateTextStyle CourierNewGray index
                  (index + length (snd (code_scan lines (i + 1) []))) ''fontFamily,backgroundColor''])"
proof -
  from line_kind_D(5)[OF assms] obtain m
    where "trim (lines ! i) \<noteq> []" "match_re (lines ! i) headingRegex = None"
      "match_re (lines ! i) bulletedListRegex = None"
      "match_re (lines ! i) numberedListRegex = None"
      "startsWith (trim (lines ! i)) fence" "match_re (trim (lines ! i)) codeStartRegex = Some m"
    by blast
  then show ?thesis by (simp add: loop_body_def Let_def split_beta)
qed

lemma loop_body_Paragraph:
  assumes "line_kind (lines ! i) = Paragraph"
  shows "loop_body fault lines i index rs = paragraph_line fault (lines ! i) i index rs"
proof -
  from line_kind_D(6)[OF assms] have t: "trim (lines ! i) \<noteq> []"
    "match_re (lines ! i) headingRegex = None"
    "match_re (lines ! i) bulletedListRegex = None" "match_re (lines ! i) numberedListRegex = None"
    and c: "\<not> startsWith (trim (lines ! i)) fence \<or> match_re (trim (lines ! i)) codeStartRegex = None"
    by simp_all
  from c show ?thesis
    by (rule disjE) (simp_all add: loop_body_def Let_def t)
qed

lemma code_scan_ge: "j \<le> fst (code_scan lines j c)"
proof (induction lines j c rule: code_scan.induct)
  case (1 lines j c)
  show ?case
  proof (cases "j < length lines \<and> \<not> startsWith (trim (lines ! j)) fence")
    case True
    with "1.IH" have "j + 1 \<le> fst (code_scan lines (j + 1) (c @ lines ! j @ [NL]))" by simp
    with True show ?thesis by (subst code_scan.simps) simp
  next
    case False
    then show ?thesis by (subst code_scan.simps) auto
  qed
qed


lemma span_within_D:
  assumes "span_within lo hi r"
  shows "inserted r = 0 \<and> (\<exists>e. range_end r = Some e \<and> e \<le> hi) \<and> inline_style r \<noteq> None"
  using assms by (cases r) (auto simp: span_within_def)

text \<open>
  One iteration: the index it leaves, and the requests it pushes, for every fault and every
  array it starts from.
\<close>

lemma loop_body_shape:
  "\<exists>i' t pre its post.
     i \<le> i'
     \<and> (\<forall>r \<in> set (pre @ its @ post). inserted r = 0 \<and> (\<exists>e. range_end r = Some e \<and> e \<le> index + length t))
     \<and> (\<forall>r \<in> set (pre @ post). \<not> is_italic r) \<and> (\<forall>r \<in> set its. is_italic r)
     \<and> (\<forall>fault rs. loop_body fault lines i index rs
           = Some (i', index + length t,
               rs @ InsertText t index # pre
                  @ (case fault index of None \<Rightarrow> its | Some k \<Rightarrow> take k its) @ post))"
proof (cases "line_kind (lines ! i)")
  case Blank
  show ?thesis
    by (intro exI[of _ i] exI[of _ "[NL]"] exI[of _ "[]"])
      (simp add: loop_body_Blank[OF Blank] split: option.split)
next
  case Heading
  from loop_body_Heading[OF this, of index] obtain hashes :: jsstring and tx
    where "\<forall>fault rs. loop_body fault lines i index rs
        = Some (i, index + length tx + 1,
            rs @ [InsertText (tx @ [NL]) index,
                  UpdateParagraphStyle (NamedStyleType (''HEADING_'' @ decimal (length hashes)))
                    index (index + length tx) ''namedStyleType''])"
    by blast
  then have b: "\<And>fault rs. loop_body fault lines i index rs
        = Some (i, index + length tx + 1,
            rs @ [InsertText (tx @ [NL]) index,
                  UpdateParagraphStyle (NamedStyleType (''HEADING_'' @ decimal (length hashes)))
                    index (index + length tx) ''namedStyleType''])"
    by simp
  show ?thesis
    by (intro exI[of _ i] exI[of _ "tx @ [NL]"]
        exI[of _ "[UpdateParagraphStyle (NamedStyleType (''HEADING_'' @ decimal (length hashes)))
                    index (index + length tx) ''namedStyleType'']"] exI[of _ "[]"])
      (simp add: b is_italic_def split: option.split)
next
  case Bulleted
  from loop_body_Bulleted[OF this, of index] obtain m
    where m: "match_re (lines ! i) bulletedListRegex = Some m"
      and b: "\<And>fault rs. loop_body fault lines i index rs
            = list_item (lines ! i) m ''BULLET_DISC_CIRCLE_SQUARE'' i index rs"
    by blast
  from bulletedListRegex_match[OF m] obtain sp tx
    where g: "group (lines ! i) m 1 = Some sp" "group (lines ! i) m 2 = Some tx"
    by blast
  show ?thesis
    by (intro exI[of _ i] exI[of _ "tx @ [NL]"]
        exI[of _ "CreateParagraphBullets index (index + length tx) ''BULLET_DISC_CIRCLE_SQUARE''
             # (if 0 < length sp
                then [UpdateParagraphStyle (Indent (length sp * 18) 0) index
                        (index + length tx) ''indentStart,indentFirstLine'']
                else [])"] exI[of _ "[]"])
      (simp add: b list_item_eq[OF g] is_italic_def split: option.split)
next
  case Numbered
  from loop_body_Numbered[OF this, of index] obtain m
    where m: "match_re (lines ! i) numberedListRegex = Some m"
      and b: "\<And>fault rs. loop_body fault lines i index rs
            = list_item (lines ! i) m ''NUMBERED_DECIMAL_NESTED'' i index rs"
    by blast
  from numberedListRegex_match[OF m] obtain sp tx
    where g: "group (lines ! i) m 1 = Some sp" "group (lines ! i) m 2 = Some tx"
    by blast
  show ?thesis
    by (intro exI[of _ i] exI[of _ "tx @ [NL]"]
        exI[of _ "CreateParagraphBullets index (index + length tx) ''NUMBERED_DECIMAL_NESTED''
             # (if 0 < length sp
                then [UpdateParagraphStyle (Indent (length sp * 18) 0) index
                        (index + length tx) ''indentStart,indentFirstLine'']
                else [])"] exI[of _ "[]"])
      (simp add: b list_item_eq[OF g] is_italic_def split: option.split)
next
  case CodeStart
  let ?j = "fst (code_scan lines (i + 1) [])"
  let ?c = "snd (code_scan lines (i + 1) [])"
  from code_scan_ge[of "i + 1" lines "[]"] have "i \<le> ?j" by simp
  then show ?thesis
    by (intro exI[of _ ?j] exI[of _ ?c]
        exI[of _ "[UpdateTextStyle CourierNewGray index (index + length ?c)
                    ''fontFamily,backgroundColor'']"] exI[of _ "[]"])
      (simp add: loop_body_CodeStart[OF CodeStart] is_italic_def split: option.split)
next
  case Paragraph
  let ?line = "lines ! i"
  from processInlineFormatting_shape[of index ?line] obtain bs its ls
    where w: "\<forall>r \<in> set (bs @ its @ ls). span_within index (index + length ?line) r"
      and ni: "\<forall>r \<in> set (bs @ ls). \<not> is_italic r" and it: "\<forall>r \<in> set its. is_italic r"
      and p: "\<And>fault rs. processInlineFormatting fault rs ?line index
           = Some (rs @ bs @ (case fault index of None \<Rightarrow> its | Some k \<Rightarrow> take k its) @ ls)"
    by blast
  from w have "\<forall>r \<in> set (bs @ its @ ls). inserted r = 0
      \<and> (\<exists>e. range_end r = Some e \<and> e \<le> index + length (?line @ [NL]))"
    by (fastforce dest: span_within_D)
  with ni it show ?thesis
    by (intro exI[of _ i] exI[of _ "?line @ [NL]"] exI[of _ bs] exI[of _ its] exI[of _ ls])
      (simp add: loop_body_Paragraph[OF Paragraph] paragraph_line_def p)
qed

lemma emitted_ok_append:
  "emitted_ok cur (xs @ ys) = (emitted_ok cur xs \<and> emitted_ok (cur + sum_list (map inserted xs)) ys)"
  by (induction cur xs rule: emitted_ok.induct) (auto simp: add.assoc)

lemma emitted_ok_styles:
  "(\<forall>r \<in> set ss. inserted r = 0 \<and> (\<exists>e. range_end r = Some e \<and> e \<le> cur)) \<Longrightarrow> emitted_ok cur ss"
  by (induction cur ss rule: emitted_ok.induct) auto

lemma styles_inserted:
  "(\<forall>r \<in> set ss. inserted r = 0 \<and> Q r) \<Longrightarrow> sum_list (map inserted ss) = 0"
  by (induction ss) auto

lemma emitted_ok_nth:
  "emitted_ok cur rs \<Longrightarrow> k < length rs \<Longrightarrow>
     (\<forall>e. range_end (rs ! k) = Some e \<longrightarrow> e \<le> cur + sum_list (map inserted (take k rs)))
     \<and> (\<forall>t ix. rs ! k = InsertText t ix \<longrightarrow> ix = cur + sum_list (map inserted (take k rs)))"
proof (induction cur rs arbitrary: k rule: emitted_ok.induct)
  case (1 cur)
  then show ?case by simp
next
  case (2 cur t ix rs)
  then show ?case by (cases k) (auto simp: add.assoc)
next
  case (3 cur sty a b f rs)
  then show ?case by (cases k) auto
next
  case (4 cur sty a b f rs)
  then show ?case by (cases k) auto
next
  case (5 cur a b p rs)
  then show ?case by (cases k) auto
qed


text \<open>
  The loop returns, from every state; the requests it has pushed keep every range behind the
  cursor, and the final \<open>index\<close> is the cursor.
\<close>

lemma loop_ok:
  assumes "emitted_ok 1 rs" and "index = cursor_after rs"
  shows "\<exists>ops. loop fault lines i index rs = Some (ops, cursor_after ops) \<and> emitted_ok 1 ops"
  using assms
proof (induction "length lines - i" arbitrary: i index rs rule: less_induct)
  case less
  show ?case
  proof (cases "i < length lines")
    case False
    with less.prems show ?thesis by (subst loop.simps) simp
  next
    case True
    from loop_body_shape[of i index lines] obtain i' t pre its post
      where i': "i \<le> i'"
        and st: "\<forall>r \<in> set (pre @ its @ post). inserted r = 0
            \<and> (\<exists>e. range_end r = Some e \<and> e \<le> index + length t)"
        and b: "\<And>fault rs. loop_body fault lines i index rs
           = Some (i', index + length t,
               rs @ InsertText t index # pre
                  @ (case fault index of None \<Rightarrow> its | Some k \<Rightarrow> take k its) @ post)"
      by blast
    let ?its = "case fault index of None \<Rightarrow> its | Some k \<Rightarrow> take k its"
    let ?ss = "pre @ ?its @ post"
    let ?rs' = "rs @ InsertText t index # ?ss"
    have "set ?its \<subseteq> set its"
      by (auto split: option.split dest: in_set_takeD)
    with st have ss: "\<forall>r \<in> set ?ss. inserted r = 0
        \<and> (\<exists>e. range_end r = Some e \<and> e \<le> index + length t)"
      by auto
    from styles_inserted[OF ss] have z: "sum_list (map inserted ?ss) = 0" .
    have ok: "emitted_ok 1 ?rs'"
      using less.prems emitted_ok_styles[OF ss]
      by (simp add: emitted_ok_append cursor_after_def)
    have cur: "index + length t = cursor_after ?rs'"
      using less.prems(2) z by (simp add: cursor_after_def)
    from True i' have "length lines - (i' + 1) < length lines - i" by simp
    from less.hyps[OF this ok cur] obtain ops
      where "loop fault lines (i' + 1) (index + length t) ?rs' = Some (ops, cursor_after ops)"
        "emitted_ok 1 ops"
      by blast
    with True b[of fault rs] show ?thesis by (subst loop.simps) simp
  qed
qed


section \<open>Evaluating the model\<close>

text \<open>The equations that compute a conversion of a given input.\<close>

lemmas eval_simps0 = js_def split_def NL_def
  loop_body_def trim_def isWhiteSpace_def match_re_def exec.simps rep.simps matches.simps
  headingRegex_def bulletedListRegex_def numberedListRegex_def codeStartRegex_def fence_def
  startsWith_def plus_def star_def opt_def lazy_star_def ch_def lit_def succeed_if_def isDot_def
  isLineTerminator_def isDigit_def isAlnum_def group_def slice_def decimal.simps list_item_def
  paragraph_line_def code_scan.simps processInlineFormatting_def exec_loop.simps boldRegex_def
  italicRegex_def linkRegex_def bold_request_def italic_request_def link_request_def m_index_def
  m_end_def Let_def

lemmas eval_simps = run_def convertMarkdownToRequests_def loop.simps eval_simps0

section \<open>The whole conversion\<close>

lemma cursor_after_mono: "j \<le> k \<Longrightarrow> cursor_after (take j rs) \<le> cursor_after (take k rs)"
proof -
  assume "j \<le> k"
  then have "take k rs = take j rs @ take (k - j) (drop j rs)"
    by (metis le_add_diff_inverse take_add)
  then show ?thesis by (simp add: cursor_after_def)
qed

lemma run_ok:
  "\<exists>ops. run fault markdown = Some (ops, cursor_after ops) \<and> emitted_ok 1 ops"
  unfolding run_def by (rule loop_ok) (simp_all add: cursor_after_def)

text \<open>
  C1: for every markdown input the conversion returns, and in the sequence it returns every
  request that carries a range has its \<open>endIndex\<close> at or before the cursor at the time
  the request is emitted; the cursor starts at 1, moves by the length of each inserted text
  right after its \<open>insertText\<close> (each \<open>insertText\<close> is at the cursor), and never
  decreases.
\<close>

theorem C1_ranges_behind_cursor:
  "\<exists>ops. convertMarkdownToRequests fault markdown = Some ops
     \<and> (\<forall>k < length ops. \<forall>e. range_end (ops ! k) = Some e \<longrightarrow> e \<le> cursor_after (take k ops))
     \<and> (\<forall>k < length ops. \<forall>t ix. ops ! k = InsertText t ix \<longrightarrow> ix = cursor_after (take k ops))
     \<and> (\<forall>j k. j \<le> k \<and> k \<le> length ops \<longrightarrow> cursor_after (take j ops) \<le> cursor_after (take k ops))"
proof -
  from run_ok[of fault markdown] obtain ops
    where r: "run fault markdown = Some (ops, cursor_after ops)" and ok: "emitted_ok 1 ops"
    by blast
  from r have "convertMarkdownToRequests fault markdown = Some ops"
    by (simp add: convertMarkdownToRequests_def)
  moreover have "\<forall>k < length ops. (\<forall>e. range_end (ops ! k) = Some e \<longrightarrow> e \<le> cursor_after (take k ops))
      \<and> (\<forall>t ix. ops ! k = InsertText t ix \<longrightarrow> ix = cursor_after (take k ops))"
    using emitted_ok_nth[OF ok] unfolding cursor_after_def by blast
  ultimately show ?thesis
    using cursor_after_mono by blast
qed

theorem C1_witness:
  "convertMarkdownToRequests no_fault (js ''a **b**\<newline># T'')
     = Some [InsertText (js ''a **b**\<newline>'') 1, UpdateTextStyle Bold 5 6 ''bold'',
             InsertText (js ''T\<newline>'') 9,
             UpdateParagraphStyle (NamedStyleType ''HEADING_1'') 9 10 ''namedStyleType'']
   \<and> (6::nat) \<le> cursor_after (take 1 [InsertText (js ''a **b**\<newline>'') 1,
             UpdateTextStyle Bold 5 6 ''bold'', InsertText (js ''T\<newline>'') 9,
             UpdateParagraphStyle (NamedStyleType ''HEADING_1'') 9 10 ''namedStyleType''])
   \<and> (10::nat) \<le> cursor_after (take 3 [InsertText (js ''a **b**\<newline>'') 1,
             UpdateTextStyle Bold 5 6 ''bold'', InsertText (js ''T\<newline>'') 9,
             UpdateParagraphStyle (NamedStyleType ''HEADING_1'') 9 10 ''namedStyleType''])"
proof -
  have e: "convertMarkdownToRequests no_fault (js ''a **b**\<newline># T'')
     = Some [InsertText (js ''a **b**\<newline>'') 1, UpdateTextStyle Bold 5 6 ''bold'',
             InsertText (js ''T\<newline>'') 9,
             UpdateParagraphStyle (NamedStyleType ''HEADING_1'') 9 10 ''namedStyleType'']"
    by (simp add: eval_simps no_fault_def del: in_succeed_if succeed_if_Nil)
  from C1_ranges_behind_cursor[of no_fault "js ''a **b**\<newline># T''"] obtain ops
    where o: "convertMarkdownToRequests no_fault (js ''a **b**\<newline># T'') = Some ops"
      and c: "\<forall>k < length ops. \<forall>e. range_end (ops ! k) = Some e \<longrightarrow> e \<le> cursor_after (take k ops)"
    by blast
  from o e have ops: "ops = [InsertText (js ''a **b**\<newline>'') 1, UpdateTextStyle Bold 5 6 ''bold'',
             InsertText (js ''T\<newline>'') 9,
             UpdateParagraphStyle (NamedStyleType ''HEADING_1'') 9 10 ''namedStyleType'']"
    by simp
  from c[rule_format, of 1 6] have "6 \<le> cursor_after (take 1 ops)"
    unfolding ops by simp
  moreover from c[rule_format, of 3 10] have "10 \<le> cursor_after (take 3 ops)"
    unfolding ops by simp
  ultimately have "6 \<le> cursor_after (take 1 ops) \<and> 10 \<le> cursor_after (take 3 ops)"
    by simp
  with e show ?thesis unfolding ops by simp
qed

text \<open>
  C6: for every markdown input the conversion returns, and the lengths of the texts of
  all the \<open>insertText\<close> requests it returns add up to the final value of \<open>index\<close>
  minus 1.
\<close>

theorem C6_inserted_length:
  "\<exists>ops final. run fault markdown = Some (ops, final)
     \<and> convertMarkdownToRequests fault markdown = Some ops
     \<and> sum_list (map inserted ops) = final - 1 \<and> 1 \<le> final"
proof -
  from run_ok[of fault markdown] obtain ops
    where r: "run fault markdown = Some (ops, cursor_after ops)"
    by blast
  then show ?thesis
    by (intro exI[of _ ops] exI[of _ "cursor_after ops"])
      (simp add: convertMarkdownToRequests_def cursor_after_def)
qed





section \<open>Lines of each kind\<close>

text \<open>What the inner loop of the code-block branch returns.\<close>

lemma code_scan_spec:
  assumes "k \<le> length lines"
  shows "\<exists>j. code_scan lines k c
        = (j, c @ concat (map (\<lambda>l. l @ [NL]) (take (j - k) (drop k lines))))
      \<and> k \<le> j \<and> j \<le> length lines
      \<and> (\<forall>m. k \<le> m \<and> m < j \<longrightarrow> \<not> startsWith (trim (lines ! m)) fence)
      \<and> (j < length lines \<longrightarrow> startsWith (trim (lines ! j)) fence)"
  using assms
proof (induction lines k c rule: code_scan.induct)
  case (1 lines k c)
  show ?case
  proof (cases "k < length lines \<and> \<not> startsWith (trim (lines ! k)) fence")
    case True
    from "1.IH"[OF True] True obtain j
      where s: "code_scan lines (k + 1) (c @ lines ! k @ [NL])
          = (j, (c @ lines ! k @ [NL])
                @ concat (map (\<lambda>l. l @ [NL]) (take (j - (k + 1)) (drop (k + 1) lines))))"
        and j: "k + 1 \<le> j" "j \<le> length lines"
        and nf: "\<forall>m. k + 1 \<le> m \<and> m < j \<longrightarrow> \<not> startsWith (trim (lines ! m)) fence"
        and cl: "j < length lines \<longrightarrow> startsWith (trim (lines ! j)) fence"
      by auto
    from j have "j - k = Suc (j - (k + 1))" by simp
    moreover from True have "drop k lines = lines ! k # drop (k + 1) lines"
      by (simp add: Cons_nth_drop_Suc)
    ultimately have t: "take (j - k) (drop k lines)
        = lines ! k # take (j - (k + 1)) (drop (k + 1) lines)"
      by simp
    have e: "code_scan lines k c
        = (j, c @ concat (map (\<lambda>l. l @ [NL]) (take (j - k) (drop k lines))))"
      using True s unfolding t by (subst code_scan.simps) simp
    have "\<forall>m. k \<le> m \<and> m < j \<longrightarrow> \<not> startsWith (trim (lines ! m)) fence"
    proof (intro allI impI)
      fix m assume m: "k \<le> m \<and> m < j"
      show "\<not> startsWith (trim (lines ! m)) fence"
      proof (cases "m = k")
        case True
        with \<open>k < length lines \<and> \<not> startsWith (trim (lines ! k)) fence\<close> show ?thesis by simp
      next
        case False
        with m nf show ?thesis by simp
      qed
    qed
    with e j cl show ?thesis
      by (intro exI[of _ j]) simp
  next
    case False
    then have "code_scan lines k c = (k, c)"
      by (subst code_scan.simps) auto
    with False "1.prems" show ?thesis
      by (intro exI[of _ k]) auto
  qed
qed

text \<open>Cutting a string into consecutive slices.\<close>

lemma slice_append: "a \<le> b \<Longrightarrow> b \<le> c \<Longrightarrow> slice s a b @ slice s b c = slice s a c"
proof -
  assume ab: "a \<le> b" and bc: "b \<le> c"
  have "take ((b - a) + (c - b)) (drop a s)
      = take (b - a) (drop a s) @ take (c - b) (drop (b - a) (drop a s))"
    by (rule take_add)
  with ab bc show ?thesis by (simp add: slice_def)
qed

lemma slice_single: "a < length s \<Longrightarrow> slice s a (Suc a) = [s ! a]"
  by (simp add: slice_def take_Suc hd_drop_conv_nth)

lemma slice_whole: "slice s 0 (length s) = s"
  by (simp add: slice_def)

lemma slice_all:
  assumes "\<forall>k. a \<le> k \<and> k < b \<longrightarrow> k < length s \<and> P (s ! k)"
  shows "\<forall>c \<in> set (slice s a b). P c"
proof
  fix c assume "c \<in> set (slice s a b)"
  then obtain k where k: "k < length (slice s a b)" "c = slice s a b ! k"
    by (auto simp: in_set_conv_nth)
  then have "k < b - a" "a + k < length s"
    by (auto simp: slice_def)
  with k assms show "P c"
    by (simp add: slice_def)
qed

text \<open>
  The first state a sequence ends in comes from the first state of its head that lets the
  rest succeed.
\<close>

lemma concat_map_first:
  assumes "concat (map f xs) = y # ys"
  shows "\<exists>us x vs zs. xs = us @ x # vs \<and> (\<forall>u \<in> set us. f u = []) \<and> f x = y # zs"
  using assms
proof (induction xs)
  case Nil
  then show ?case by simp
next
  case (Cons a xs)
  note prems = Cons.prems and IH = Cons.IH
  show ?case
  proof (cases "f a")
    case Nil
    with prems have "concat (map f xs) = y # ys" by simp
    from IH[OF this] obtain us x vs zs
      where "xs = us @ x # vs" "\<forall>u \<in> set us. f u = []" "f x = y # zs"
      by blast
    with Nil show ?thesis
      by (intro exI[of _ "a # us"] exI[of _ x] exI[of _ vs] exI[of _ zs]) simp
  next
    case (Cons b bs)
    with prems have "f a = y # bs" by simp
    then show ?thesis
      by (intro exI[of _ "[]"] exI[of _ a] exI[of _ xs] exI[of _ bs]) simp
  qed
qed

lemma exec_Bol_first:
  assumes "exec (Seq Bol r) s 0 = Some m"
  shows "\<exists>ys. matches s r (0, Map.empty) = (m_end m, snd (snd m)) # ys"
proof (cases "matches s r (0, Map.empty)")
  case Nil
  with exec_Bol[OF assms] show ?thesis by simp
next
  case (Cons y ys)
  then have "matches s (Seq Bol r) (0, Map.empty) = y # ys"
    by (simp add: matches.simps succeed_if_def)
  with assms have "m = (0, fst y, snd y)"
    by (subst (asm) exec.simps) simp
  with Cons show ?thesis by (simp add: m_end_def)
qed

text \<open>
  A greedy quantifier over one atom: the ends it offers, from the longest run down.
\<close>

lemma rep_atom_unfold:
  "rep (length s) {} (matches s (Atom P)) mn None True (p, c)
   = (if p < length s \<and> P (s ! p)
      then rep (length s) {} (matches s (Atom P)) (mn - 1) None True (p + 1, c) else [])
     @ (if mn = 0 then [(p, c)] else [])"
  by (subst rep.simps) (auto simp: matches.simps succeed_if_def Let_def)

lemma rep_atom_step:
  assumes "p < length s" and "P (s ! p)"
  shows "rep (length s) {} (matches s (Atom P)) 0 None True (p, c)
      = rep (length s) {} (matches s (Atom P)) 0 None True (p + 1, c) @ [(p, c)]"
    and "rep (length s) {} (matches s (Atom P)) (Suc 0) None True (p, c)
      = rep (length s) {} (matches s (Atom P)) 0 None True (p + 1, c)"
  using assms by (auto simp: rep_atom_unfold[of s P _ p c])

lemma rep_atom_stop:
  assumes "\<not> (p < length s \<and> P (s ! p))"
  shows "rep (length s) {} (matches s (Atom P)) 0 None True (p, c) = [(p, c)]"
    and "rep (length s) {} (matches s (Atom P)) (Suc 0) None True (p, c) = []"
  using assms by (auto simp: rep_atom_unfold[of s P _ p c])

lemma rep_atom_complete:
  assumes "p \<le> e" and "e \<le> length s" and "\<forall>k. p \<le> k \<and> k < e \<longrightarrow> P (s ! k)"
  shows "(e, c) \<in> set (rep (length s) {} (matches s (Atom P)) 0 None True (p, c))"
  using assms
proof (induction "e - p" arbitrary: p)
  case 0
  then have e: "e = p" by simp
  show ?case
  proof (cases "p < length s \<and> P (s ! p)")
    case True
    then show ?thesis unfolding e by (simp add: rep_atom_step(1))
  next
    case False
    then show ?thesis unfolding e by (simp add: rep_atom_stop(1))
  qed
next
  case (Suc d)
  then have p: "p < length s" "P (s ! p)" by auto
  from Suc.hyps(2) Suc.prems
  have "(e, c) \<in> set (rep (length s) {} (matches s (Atom P)) 0 None True (p + 1, c))"
    by (intro Suc.hyps(1)) auto
  with p show ?case by (simp add: rep_atom_step(1))
qed

lemma rep_atom_sorted:
  "sorted_wrt (\<lambda>a b. fst b < fst a) (rep (length s) {} (matches s (Atom P)) 0 None True (p, c))"
proof (induction p rule: measure_induct_rule[where f = "\<lambda>p. length s - p"])
  case (less p)
  show ?case
  proof (cases "p < length s \<and> P (s ! p)")
    case True
    have "p < fst y" if "y \<in> set (rep (length s) {} (matches s (Atom P)) 0 None True (p + 1, c))" for y
      using matches_rep_atom[of y s 0 None True P "(p + 1, c)"] that
      by (simp add: matches.simps)
    moreover from True
    have "sorted_wrt (\<lambda>a b. fst b < fst a)
        (rep (length s) {} (matches s (Atom P)) 0 None True (p + 1, c))"
      by (intro less.IH) auto
    ultimately show ?thesis using True
      by (simp add: rep_atom_step(1) sorted_wrt_append)
  next
    case False
    then show ?thesis by (simp add: rep_atom_stop(1))
  qed
qed

lemma plus_atom_sorted:
  "sorted_wrt (\<lambda>a b. fst b < fst a) (matches s (plus (Atom P)) x)"
proof (cases "fst x < length s \<and> P (s ! fst x)")
  case True
  with rep_atom_sorted[of s P "fst x + 1" "snd x"] rep_atom_step(2)[of "fst x" s P "snd x"]
  show ?thesis by (simp add: plus_def matches.simps)
next
  case False
  with rep_atom_stop(2)[of "fst x" s P "snd x"] show ?thesis
    by (simp add: plus_def matches.simps)
qed

lemma plus_atom_complete:
  assumes "fst x < e" and "e \<le> length s" and "\<forall>k. fst x \<le> k \<and> k < e \<longrightarrow> P (s ! k)"
  shows "(e, snd x) \<in> set (matches s (plus (Atom P)) x)"
proof -
  from assms have p: "fst x < length s" "P (s ! fst x)" by auto
  from assms have "(e, snd x) \<in> set (rep (length s) {} (matches s (Atom P)) 0 None True (fst x + 1, snd x))"
    by (intro rep_atom_complete) auto
  with p rep_atom_step(2)[of "fst x" s P "snd x"] show ?thesis
    by (simp add: plus_def matches.simps)
qed

text \<open>
  \<open>\s+(.+)$\<close>: the white space is taken as far as it goes, but for one character when
  nothing else is left for the text.
\<close>

lemma item_text_first:
  assumes "matches s (seqs (plus (Atom isWhiteSpace)) [Group 2 (plus (Atom isDot)), Eol]) z = y # ys"
  shows "\<exists>w t. w \<in> set (matches s (plus (Atom isWhiteSpace)) z)
      \<and> t \<in> set (matches s (plus (Atom isDot)) w)
      \<and> fst t = length s \<and> y = (fst t, (snd t)(2 \<mapsto> (fst w, fst t)))
      \<and> (isWhiteSpace (s ! fst w) \<longrightarrow> fst w + 1 = length s)"
proof -
  let ?rest = "Seq (Group 2 (plus (Atom isDot))) Eol"
  from assms
  have "concat (map (matches s ?rest) (matches s (plus (Atom isWhiteSpace)) z)) = y # ys"
    by (simp add: matches.simps(2))
  from concat_map_first[OF this] obtain us w vs zs
    where xs: "matches s (plus (Atom isWhiteSpace)) z = us @ w # vs"
      and us: "\<forall>u \<in> set us. matches s ?rest u = []"
      and w: "matches s ?rest w = y # zs"
    by blast
  from xs have wm: "w \<in> set (matches s (plus (Atom isWhiteSpace)) z)"
    by simp
  from w have "y \<in> set (matches s ?rest w)" by simp
  then obtain t where t: "t \<in> set (matches s (plus (Atom isDot)) w)"
    and e: "fst t = length s" and y: "y = (fst t, (snd t)(2 \<mapsto> (fst w, fst t)))"
    by (auto simp: matches_Seq_iff matches_Group_iff matches_Eol_iff)
  note pw = matches_plus_atom[OF wm] and pt = matches_plus_atom[OF t]
  have "fst w + 1 = length s" if ws: "isWhiteSpace (s ! fst w)"
  proof (rule ccontr)
    assume "fst w + 1 \<noteq> length s"
    with pt e have lt: "fst w + 1 < length s" by simp
    let ?u = "(fst w + 1, snd z)"
    have "\<forall>k. fst z \<le> k \<and> k < fst w + 1 \<longrightarrow> isWhiteSpace (s ! k)"
    proof (intro allI impI)
      fix k assume k: "fst z \<le> k \<and> k < fst w + 1"
      show "isWhiteSpace (s ! k)"
      proof (cases "k = fst w")
        case True
        with ws show ?thesis by simp
      next
        case False
        with k pw show ?thesis by simp
      qed
    qed
    with pw lt have "?u \<in> set (matches s (plus (Atom isWhiteSpace)) z)"
      using plus_atom_complete[of z "fst w + 1" s isWhiteSpace] by simp
    then have "?u \<in> set us \<or> ?u = w \<or> ?u \<in> set vs"
      unfolding xs by auto
    moreover have "?u \<noteq> w"
      by (cases w) auto
    moreover from plus_atom_sorted[of s isWhiteSpace z]
    have "\<forall>v \<in> set vs. fst v < fst w"
      unfolding xs by (simp add: sorted_wrt_append)
    then have "?u \<notin> set vs" by auto
    ultimately have "?u \<in> set us" by simp
    with us have n: "matches s ?rest ?u = []" by simp
    from pt e lt have "(length s, snd ?u) \<in> set (matches s (plus (Atom isDot)) ?u)"
      by (intro plus_atom_complete) auto
    then have "(length s, (snd ?u)(2 \<mapsto> (fst ?u, length s))) \<in> set (matches s ?rest ?u)"
      unfolding matches_Seq_iff matches_Group_iff matches_Eol_iff
      by (intro exI[of _ "(length s, (snd ?u)(2 \<mapsto> (fst ?u, length s)))"] conjI
          exI[of _ "(length s, snd ?u)"]) simp_all
    with n show False by simp
  qed
  with wm t e y show ?thesis by blast
qed

lemma matches_Seq_first:
  assumes "matches s (Seq a b) x = y # ys"
  shows "\<exists>z zs. z \<in> set (matches s a x) \<and> matches s b z = y # zs"
proof -
  from assms have "concat (map (matches s b) (matches s a x)) = y # ys"
    by (simp add: matches.simps(2))
  from concat_map_first[OF this] obtain us z vs zs
    where "matches s a x = us @ z # vs" "matches s b z = y # zs"
    by blast
  then show ?thesis
    by (intro exI[of _ z] exI[of _ zs]) simp
qed

lemma bulleted_parts:
  assumes "match_re line bulletedListRegex = Some m"
  shows "\<exists>spaces ws text.
      group line m 1 = Some spaces \<and> group line m 2 = Some text
      \<and> line = spaces @ of_char CHR ''-'' # ws @ text
      \<and> (\<forall>c \<in> set spaces. isWhiteSpace c)
      \<and> ws \<noteq> [] \<and> (\<forall>c \<in> set ws. isWhiteSpace c)
      \<and> text \<noteq> [] \<and> (\<forall>c \<in> set text. \<not> isLineTerminator c)
      \<and> (isWhiteSpace (hd text) \<longrightarrow> length text = 1)"
proof -
  let ?tail = "Seq (plus (Atom isWhiteSpace)) (Seq (Group 2 (plus (Atom isDot))) Eol)"
  from assms
  have "exec (Seq Bol (Seq (Group 1 (star (Atom isWhiteSpace))) (Seq (ch CHR ''-'') ?tail))) line 0
      = Some m"
    by (simp add: match_re_def bulletedListRegex_def)
  from exec_Bol_first[OF this] obtain ys
    where "matches line (Seq (Group 1 (star (Atom isWhiteSpace))) (Seq (ch CHR ''-'') ?tail))
        (0, Map.empty) = (m_end m, snd (snd m)) # ys"
    by blast
  from matches_Seq_first[OF this] obtain x1 zs1
    where x1: "x1 \<in> set (matches line (Group 1 (star (Atom isWhiteSpace))) (0, Map.empty))"
      and "matches line (Seq (ch CHR ''-'') ?tail) x1 = (m_end m, snd (snd m)) # zs1"
    by blast
  from matches_Seq_first[OF this(2)] obtain x2 zs2
    where x2: "x2 \<in> set (matches line (ch CHR ''-'') x1)"
      and "matches line ?tail x2 = (m_end m, snd (snd m)) # zs2"
    by blast
  from item_text_first[of line x2 "(m_end m, snd (snd m))" zs2] this(2) obtain w t
    where w: "w \<in> set (matches line (plus (Atom isWhiteSpace)) x2)"
      and t: "t \<in> set (matches line (plus (Atom isDot)) w)"
      and e: "fst t = length line"
      and c: "snd (snd m) = (snd t)(2 \<mapsto> (fst w, fst t))"
      and gr: "isWhiteSpace (line ! fst w) \<longrightarrow> fst w + 1 = length line"
    by auto
  from x1 obtain sp where sp: "sp \<in> set (matches line (star (Atom isWhiteSpace)) (0, Map.empty))"
    and x1e: "x1 = (fst sp, (snd sp)(1 \<mapsto> (0, fst sp)))"
    by (auto simp: matches_Group_iff)
  from x2 x1e have d: "fst sp < length line" "line ! fst sp = of_char CHR ''-''"
    and x2e: "x2 = (fst sp + 1, (snd sp)(1 \<mapsto> (0, fst sp)))"
    by (simp_all add: matches_ch_iff)
  let ?q = "fst sp" and ?a = "fst w" and ?n = "length line"
  from matches_star_atom[OF sp] have q: "\<forall>k. 0 \<le> k \<and> k < ?q \<longrightarrow> k < ?n \<and> isWhiteSpace (line ! k)"
    by simp
  from matches_plus_atom[OF w] x2e
  have a: "?q + 1 < ?a" "\<forall>k. ?q + 1 \<le> k \<and> k < ?a \<longrightarrow> k < ?n \<and> isWhiteSpace (line ! k)"
    and cw: "snd w = (snd sp)(1 \<mapsto> (0, ?q))"
    by simp_all
  from matches_plus_atom[OF t] e
  have tt: "?a < ?n" "\<forall>k. ?a \<le> k \<and> k < ?n \<longrightarrow> k < ?n \<and> isDot (line ! k)"
    and ct: "snd t = snd w"
    by simp_all
  from c ct cw e
  have g: "group line m 1 = Some (slice line 0 ?q)" "group line m 2 = Some (slice line ?a ?n)"
    by (simp_all add: group_def)
  have "slice line 0 ?n
      = slice line 0 ?q @ slice line ?q (Suc ?q) @ slice line (Suc ?q) ?a @ slice line ?a ?n"
    using d(1) a(1) tt(1) by (simp add: slice_append)
  then have l: "line = slice line 0 ?q @ of_char CHR ''-'' # slice line (?q + 1) ?a @ slice line ?a ?n"
    unfolding slice_whole slice_single[OF d(1)] d(2) by simp
  have len: "length (slice line (?q + 1) ?a) = ?a - (?q + 1)" "length (slice line ?a ?n) = ?n - ?a"
    using tt(1) by (simp_all add: length_slice)
  with a(1) tt(1) have ne: "slice line (?q + 1) ?a \<noteq> []" "slice line ?a ?n \<noteq> []"
    by auto
  from tt(1) have "hd (slice line ?a ?n) = line ! ?a"
    by (simp add: slice_def hd_drop_conv_nth)
  with gr len(2) have h: "isWhiteSpace (hd (slice line ?a ?n)) \<longrightarrow> length (slice line ?a ?n) = 1"
    by auto
  from slice_all[OF q] slice_all[OF a(2)] slice_all[OF tt(2)] g l ne h show ?thesis
    by (intro exI[of _ "slice line 0 ?q"] exI[of _ "slice line (?q + 1) ?a"]
        exI[of _ "slice line ?a ?n"]) (simp add: isDot_def)
qed

lemma numbered_parts:
  assumes "match_re line numberedListRegex = Some m"
  shows "\<exists>spaces digits ws text.
      group line m 1 = Some spaces \<and> group line m 2 = Some text
      \<and> line = spaces @ digits @ of_char CHR ''.'' # ws @ text
      \<and> (\<forall>c \<in> set spaces. isWhiteSpace c)
      \<and> digits \<noteq> [] \<and> (\<forall>c \<in> set digits. isDigit c)
      \<and> ws \<noteq> [] \<and> (\<forall>c \<in> set ws. isWhiteSpace c)
      \<and> text \<noteq> [] \<and> (\<forall>c \<in> set text. \<not> isLineTerminator c)
      \<and> (isWhiteSpace (hd text) \<longrightarrow> length text = 1)"
proof -
  let ?tail = "Seq (plus (Atom isWhiteSpace)) (Seq (Group 2 (plus (Atom isDot))) Eol)"
  from assms
  have "exec (Seq Bol (Seq (Group 1 (star (Atom isWhiteSpace)))
      (Seq (plus (Atom isDigit)) (Seq (ch CHR ''.'') ?tail)))) line 0 = Some m"
    by (simp add: match_re_def numberedListRegex_def)
  from exec_Bol_first[OF this] obtain ys
    where "matches line (Seq (Group 1 (star (Atom isWhiteSpace)))
        (Seq (plus (Atom isDigit)) (Seq (ch CHR ''.'') ?tail)))
        (0, Map.empty) = (m_end m, snd (snd m)) # ys"
    by blast
  from matches_Seq_first[OF this] obtain x1 zs1
    where x1: "x1 \<in> set (matches line (Group 1 (star (Atom isWhiteSpace))) (0, Map.empty))"
      and "matches line (Seq (plus (Atom isDigit)) (Seq (ch CHR ''.'') ?tail)) x1
          = (m_end m, snd (snd m)) # zs1"
    by blast
  from matches_Seq_first[OF this(2)] obtain n zs0
    where n0: "n \<in> set (matches line (plus (Atom isDigit)) x1)"
      and "matches line (Seq (ch CHR ''.'') ?tail) n = (m_end m, snd (snd m)) # zs0"
    by blast
  from matches_Seq_first[OF this(2)] obtain x2 zs2
    where x2: "x2 \<in> set (matches line (ch CHR ''.'') n)"
      and "matches line ?tail x2 = (m_end m, snd (snd m)) # zs2"
    by blast
  from item_text_first[of line x2 "(m_end m, snd (snd m))" zs2] this(2) obtain w t
    where w: "w \<in> set (matches line (plus (Atom isWhiteSpace)) x2)"
      and t: "t \<in> set (matches line (plus (Atom isDot)) w)"
      and e: "fst t = length line"
      and c: "snd (snd m) = (snd t)(2 \<mapsto> (fst w, fst t))"
      and gr: "isWhiteSpace (line ! fst w) \<longrightarrow> fst w + 1 = length line"
    by auto
  from x1 obtain sp where sp: "sp \<in> set (matches line (star (Atom isWhiteSpace)) (0, Map.empty))"
    and x1e: "x1 = (fst sp, (snd sp)(1 \<mapsto> (0, fst sp)))"
    by (auto simp: matches_Group_iff)
  from x2 have d: "fst n < length line" "line ! fst n = of_char CHR ''.''"
    and x2e: "x2 = (fst n + 1, snd n)"
    by (simp_all add: matches_ch_iff)
  let ?q = "fst sp" and ?d = "fst n" and ?a = "fst w" and ?n = "length line"
  from matches_star_atom[OF sp] have q: "\<forall>k. 0 \<le> k \<and> k < ?q \<longrightarrow> k < ?n \<and> isWhiteSpace (line ! k)"
    by simp
  from matches_plus_atom[OF n0] x1e
  have dg: "?q < ?d" "\<forall>k. ?q \<le> k \<and> k < ?d \<longrightarrow> k < ?n \<and> isDigit (line ! k)"
    and cn: "snd n = (snd sp)(1 \<mapsto> (0, ?q))"
    by simp_all
  from matches_plus_atom[OF w] x2e
  have a: "?d + 1 < ?a" "\<forall>k. ?d + 1 \<le> k \<and> k < ?a \<longrightarrow> k < ?n \<and> isWhiteSpace (line ! k)"
    and cw: "snd w = snd n"
    by simp_all
  from matches_plus_atom[OF t] e
  have tt: "?a < ?n" "\<forall>k. ?a \<le> k \<and> k < ?n \<longrightarrow> k < ?n \<and> isDot (line ! k)"
    and ct: "snd t = snd w"
    by simp_all
  from c ct cw cn e
  have g: "group line m 1 = Some (slice line 0 ?q)" "group line m 2 = Some (slice line ?a ?n)"
    by (simp_all add: group_def)
  have "slice line 0 ?n
      = slice line 0 ?q @ slice line ?q ?d @ slice line ?d (Suc ?d)
        @ slice line (Suc ?d) ?a @ slice line ?a ?n"
    using dg(1) d(1) a(1) tt(1) by (simp add: slice_append)
  then have l: "line = slice line 0 ?q @ slice line ?q ?d
      @ of_char CHR ''.'' # slice line (?d + 1) ?a @ slice line ?a ?n"
    unfolding slice_whole slice_single[OF d(1)] d(2) by simp
  have len: "length (slice line ?q ?d) = ?d - ?q"
    "length (slice line (?d + 1) ?a) = ?a - (?d + 1)" "length (slice line ?a ?n) = ?n - ?a"
    using tt(1) a(1) d(1) by (simp_all add: length_slice)
  with dg(1) a(1) tt(1)
  have ne: "slice line ?q ?d \<noteq> []" "slice line (?d + 1) ?a \<noteq> []" "slice line ?a ?n \<noteq> []"
    by auto
  from tt(1) have "hd (slice line ?a ?n) = line ! ?a"
    by (simp add: slice_def hd_drop_conv_nth)
  with gr len(3) have h: "isWhiteSpace (hd (slice line ?a ?n)) \<longrightarrow> length (slice line ?a ?n) = 1"
    by auto
  from slice_all[OF q] slice_all[OF dg(2)] slice_all[OF a(2)] slice_all[OF tt(2)] g l ne h
  show ?thesis
    by (intro exI[of _ "slice line 0 ?q"] exI[of _ "slice line ?q ?d"]
        exI[of _ "slice line (?d + 1) ?a"] exI[of _ "slice line ?a ?n"]) (simp add: isDot_def)
qed

text \<open>
  C3, as the code has it: inline scanning is applied to paragraph lines only. At a
  paragraph line the iteration pushes the insertion of the line and then what
  \<open>processInlineFormatting\<close> finds in it, each an inline style request whose range lies
  inside the line, counted from the index of the insertion. At any other line the
  iteration pushes no inline style request, and unless the line opens a code fence the loop
  goes on with the next line. A heading pushes its insertion and its heading style and
  nothing else, whatever its text holds. At a line that opens a code fence the iteration
  takes the lines up to the next line that starts with the fence marker, or up to the end,
  as code, pushes them as one insertion with the code style over it, and the loop goes on
  after that closing line: the code lines get no iteration of their own, so they are never
  scanned.
\<close>

theorem C3_inline_scan_paragraph_only:
  "(line_kind (lines ! i) = Paragraph \<longrightarrow>
      (\<exists>spans.
         (\<forall>r \<in> set spans. span_within index (index + length (lines ! i)) r)
         \<and> processInlineFormatting fault (requests @ [InsertText (lines ! i @ [NL]) index])
               (lines ! i) index
             = Some (requests @ InsertText (lines ! i @ [NL]) index # spans)
         \<and> loop_body fault lines i index requests
             = Some (i, index + length (lines ! i) + 1,
                     requests @ InsertText (lines ! i @ [NL]) index # spans)))
   \<and> (line_kind (lines ! i) \<noteq> Paragraph \<longrightarrow>
      (\<exists>i' index' out.
         loop_body fault lines i index requests = Some (i', index', requests @ out)
         \<and> (\<forall>r \<in> set out. inline_style r = None)
         \<and> (line_kind (lines ! i) \<noteq> CodeStart \<longrightarrow> i' = i)))
   \<and> (match_re (lines ! i) headingRegex \<noteq> None \<longrightarrow>
      (\<exists>(hashes :: jsstring) text.
         loop_body fault lines i index requests
           = Some (i, index + length text + 1,
                   requests
                   @ [InsertText (text @ [NL]) index,
                      UpdateParagraphStyle (NamedStyleType (''HEADING_'' @ decimal (length hashes)))
                        index (index + length text) ''namedStyleType''])))
   \<and> (i < length lines \<and> line_kind (lines ! i) = CodeStart \<longrightarrow>
      (\<exists>j code.
         i < j \<and> j \<le> length lines
         \<and> (\<forall>k. i < k \<and> k < j \<longrightarrow> \<not> startsWith (trim (lines ! k)) fence)
         \<and> (j < length lines \<longrightarrow> startsWith (trim (lines ! j)) fence)
         \<and> code = concat (map (\<lambda>l. l @ [NL]) (take (j - (i + 1)) (drop (i + 1) lines)))
         \<and> loop_body fault lines i index requests
             = Some (j, index + length code,
                     requests
                     @ [InsertText code index,
                        UpdateTextStyle CourierNewGray index (index + length code)
                          ''fontFamily,backgroundColor''])
         \<and> loop fault lines i index requests
             = loop fault lines (j + 1) (index + length code)
                 (requests
                  @ [InsertText code index,
                     UpdateTextStyle CourierNewGray index (index + length code)
                       ''fontFamily,backgroundColor''])))"
proof (intro conjI impI)
  assume k: "line_kind (lines ! i) = Paragraph"
  let ?line = "lines ! i"
  from processInlineFormatting_shape[of index ?line] obtain bs its ls
    where w: "\<forall>r \<in> set (bs @ its @ ls). span_within index (index + length ?line) r"
      and p: "\<And>fault rs. processInlineFormatting fault rs ?line index
           = Some (rs @ bs @ (case fault index of None \<Rightarrow> its | Some k \<Rightarrow> take k its) @ ls)"
    by blast
  let ?spans = "bs @ (case fault index of None \<Rightarrow> its | Some k \<Rightarrow> take k its) @ ls"
  have "set (case fault index of None \<Rightarrow> its | Some k \<Rightarrow> take k its) \<subseteq> set its"
    by (auto split: option.split dest: in_set_takeD)
  with w have "\<forall>r \<in> set ?spans. span_within index (index + length ?line) r"
    by auto
  then show "\<exists>spans.
         (\<forall>r \<in> set spans. span_within index (index + length ?line) r)
         \<and> processInlineFormatting fault (requests @ [InsertText (?line @ [NL]) index]) ?line index
             = Some (requests @ InsertText (?line @ [NL]) index # spans)
         \<and> loop_body fault lines i index requests
             = Some (i, index + length ?line + 1,
                     requests @ InsertText (?line @ [NL]) index # spans)"
    by (intro exI[of _ ?spans])
      (simp add: loop_body_Paragraph[OF k] paragraph_line_def p)
next
  assume k: "line_kind (lines ! i) \<noteq> Paragraph"
  show "\<exists>i' index' out.
         loop_body fault lines i index requests = Some (i', index', requests @ out)
         \<and> (\<forall>r \<in> set out. inline_style r = None)
         \<and> (line_kind (lines ! i) \<noteq> CodeStart \<longrightarrow> i' = i)"
  proof (cases "line_kind (lines ! i)")
    case Blank
    from loop_body_Blank[OF this, of fault index requests] show ?thesis
      by (intro exI[of _ i] exI[of _ "index + 1"] exI[of _ "[InsertText [NL] index]"]) simp
  next
    case Heading
    from loop_body_Heading[OF this, of index] obtain hashes :: jsstring and tx
      where "\<forall>fault rs. loop_body fault lines i index rs
        = Some (i, index + length tx + 1,
            rs @ [InsertText (tx @ [NL]) index,
                  UpdateParagraphStyle (NamedStyleType (''HEADING_'' @ decimal (length hashes)))
                    index (index + length tx) ''namedStyleType''])"
      by blast
    then show ?thesis
      by (intro exI[of _ i] exI[of _ "index + length tx + 1"]
          exI[of _ "[InsertText (tx @ [NL]) index,
                  UpdateParagraphStyle (NamedStyleType (''HEADING_'' @ decimal (length hashes)))
                    index (index + length tx) ''namedStyleType'']"]) simp
  next
    case Bulleted
    from loop_body_Bulleted[OF this, of index] obtain m
      where m: "match_re (lines ! i) bulletedListRegex = Some m"
        and b: "\<And>fault rs. loop_body fault lines i index rs
              = list_item (lines ! i) m ''BULLET_DISC_CIRCLE_SQUARE'' i index rs"
      by blast
    from bulletedListRegex_match[OF m] obtain sp tx
      where g: "group (lines ! i) m 1 = Some sp" "group (lines ! i) m 2 = Some tx"
      by blast
    show ?thesis
      by (intro exI[of _ i] exI[of _ "index + length tx + 1"]
          exI[of _ "InsertText (tx @ [NL]) index
             # CreateParagraphBullets index (index + length tx) ''BULLET_DISC_CIRCLE_SQUARE''
             # (if 0 < length sp
                then [UpdateParagraphStyle (Indent (length sp * 18) 0) index
                        (index + length tx) ''indentStart,indentFirstLine'']
                else [])"])
        (simp add: b list_item_eq[OF g])
  next
    case Numbered
    from loop_body_Numbered[OF this, of index] obtain m
      where m: "match_re (lines ! i) numberedListRegex = Some m"
        and b: "\<And>fault rs. loop_body fault lines i index rs
              = list_item (lines ! i) m ''NUMBERED_DECIMAL_NESTED'' i index rs"
      by blast
    from numberedListRegex_match[OF m] obtain sp tx
      where g: "group (lines ! i) m 1 = Some sp" "group (lines ! i) m 2 = Some tx"
      by blast
    show ?thesis
      by (intro exI[of _ i] exI[of _ "index + length tx + 1"]
          exI[of _ "InsertText (tx @ [NL]) index
             # CreateParagraphBullets index (index + length tx) ''NUMBERED_DECIMAL_NESTED''
             # (if 0 < length sp
                then [UpdateParagraphStyle (Indent (length sp * 18) 0) index
                        (index + length tx) ''indentStart,indentFirstLine'']
                else [])"])
        (simp add: b list_item_eq[OF g])
  next
    case CodeStart
    from loop_body_CodeStart[OF this, of fault index requests] CodeStart show ?thesis
      by (intro exI[of _ "fst (code_scan lines (i + 1) [])"]
          exI[of _ "index + length (snd (code_scan lines (i + 1) []))"]
          exI[of _ "[InsertText (snd (code_scan lines (i + 1) [])) index,
                UpdateTextStyle CourierNewGray index
                  (index + length (snd (code_scan lines (i + 1) []))) ''fontFamily,backgroundColor'']"])
        simp
  next
    case Paragraph
    with k show ?thesis by simp
  qed
next
  assume "match_re (lines ! i) headingRegex \<noteq> None"
  then obtain m where "match_re (lines ! i) headingRegex = Some m"
    by blast
  from loop_body_Heading[OF heading_kind[OF this], of index]
  show "\<exists>(hashes :: jsstring) text.
         loop_body fault lines i index requests
           = Some (i, index + length text + 1,
                   requests
                   @ [InsertText (text @ [NL]) index,
                      UpdateParagraphStyle (NamedStyleType (''HEADING_'' @ decimal (length hashes)))
                        index (index + length text) ''namedStyleType''])"
    by blast
next
  assume a: "i < length lines \<and> line_kind (lines ! i) = CodeStart"
  then have "i + 1 \<le> length lines" by simp
  from code_scan_spec[OF this, of "[]"] obtain j
    where s: "code_scan lines (i + 1) []
          = (j, [] @ concat (map (\<lambda>l. l @ [NL]) (take (j - (i + 1)) (drop (i + 1) lines))))"
      and j: "i + 1 \<le> j" "j \<le> length lines"
      and nf: "\<forall>m. i + 1 \<le> m \<and> m < j \<longrightarrow> \<not> startsWith (trim (lines ! m)) fence"
      and cl: "j < length lines \<longrightarrow> startsWith (trim (lines ! j)) fence"
    by blast
  let ?code = "concat (map (\<lambda>l. l @ [NL]) (take (j - (i + 1)) (drop (i + 1) lines)))"
  let ?out = "[InsertText ?code index,
               UpdateTextStyle CourierNewGray index (index + length ?code)
                 ''fontFamily,backgroundColor'']"
  from a have k: "line_kind (lines ! i) = CodeStart" by simp
  from loop_body_CodeStart[OF k, of fault index requests] s
  have b: "loop_body fault lines i index requests = Some (j, index + length ?code, requests @ ?out)"
    by simp
  from a b have l: "loop fault lines i index requests
      = loop fault lines (j + 1) (index + length ?code) (requests @ ?out)"
    by (subst loop.simps) simp
  from nf have nf': "\<forall>k. i < k \<and> k < j \<longrightarrow> \<not> startsWith (trim (lines ! k)) fence"
    by simp
  from j have "i < j" by simp
  with j(2) nf' cl b l
  show "\<exists>j code.
         i < j \<and> j \<le> length lines
         \<and> (\<forall>k. i < k \<and> k < j \<longrightarrow> \<not> startsWith (trim (lines ! k)) fence)
         \<and> (j < length lines \<longrightarrow> startsWith (trim (lines ! j)) fence)
         \<and> code = concat (map (\<lambda>l. l @ [NL]) (take (j - (i + 1)) (drop (i + 1) lines)))
         \<and> loop_body fault lines i index requests
             = Some (j, index + length code,
                     requests
                     @ [InsertText code index,
                        UpdateTextStyle CourierNewGray index (index + length code)
                          ''fontFamily,backgroundColor''])
         \<and> loop fault lines i index requests
             = loop fault lines (j + 1) (index + length code)
                 (requests
                  @ [InsertText code index,
                     UpdateTextStyle CourierNewGray index (index + length code)
                       ''fontFamily,backgroundColor''])"
    by (intro exI[of _ j] exI[of _ ?code]) simp
qed

theorem C3_witness:
  "line_kind (js ''**c** [d](e)'') = Paragraph
   \<and> loop_body no_fault [js ''# **a**'', js ''**c** [d](e)''] 1 7 [] 
       = Some (1, 20, [InsertText (js ''**c** [d](e)\<newline>'') 7, UpdateTextStyle Bold 9 10 ''bold'',
                        UpdateTextStyle (Link (Some (js ''e''))) 14 15 ''link''])
   \<and> line_kind (js ''# **a**'') = Heading
   \<and> match_re (js ''# **a**'') headingRegex \<noteq> None
   \<and> loop_body no_fault [js ''# **a**'', js ''**c** [d](e)''] 0 1 []
       = Some (0, 7, [InsertText (js ''**a**\<newline>'') 1,
                      UpdateParagraphStyle (NamedStyleType ''HEADING_1'') 1 6 ''namedStyleType''])
   \<and> line_kind (js ''```'') = CodeStart
   \<and> loop_body no_fault [js ''```'', js ''**x**'', js ''```'', js ''**y**''] 0 1 []
       = Some (2, 7, [InsertText (js ''**x**\<newline>'') 1,
                      UpdateTextStyle CourierNewGray 1 7 ''fontFamily,backgroundColor''])
   \<and> loop no_fault [js ''```'', js ''**x**'', js ''```'', js ''**y**''] 0 1 []
       = Some ([InsertText (js ''**x**\<newline>'') 1,
                UpdateTextStyle CourierNewGray 1 7 ''fontFamily,backgroundColor'',
                InsertText (js ''**y**\<newline>'') 7, UpdateTextStyle Bold 9 10 ''bold''], 13)"
proof -
  let ?lines = "[js ''# **a**'', js ''**c** [d](e)'']"
  let ?fenced = "[js ''```'', js ''**x**'', js ''```'', js ''**y**'']"
  have k: "line_kind (?lines ! 1) = Paragraph"
    by (simp add: line_kind_def eval_simps0 del: in_succeed_if succeed_if_Nil)
  have kh: "line_kind (?lines ! 0) = Heading"
    by (simp add: line_kind_def eval_simps0 del: in_succeed_if succeed_if_Nil)
  have h: "match_re (?lines ! 0) headingRegex \<noteq> None"
    by (simp add: eval_simps0 del: in_succeed_if succeed_if_Nil)
  have kc: "line_kind (?fenced ! 0) = CodeStart"
    by (simp add: line_kind_def eval_simps0 del: in_succeed_if succeed_if_Nil)
  have p: "processInlineFormatting no_fault ([] @ [InsertText (?lines ! 1 @ [NL]) 7]) (?lines ! 1) 7
      = Some [InsertText (js ''**c** [d](e)\<newline>'') 7, UpdateTextStyle Bold 9 10 ''bold'',
              UpdateTextStyle (Link (Some (js ''e''))) 14 15 ''link'']"
    by (simp add: eval_simps0 no_fault_def del: in_succeed_if succeed_if_Nil)
  note c3 = C3_inline_scan_paragraph_only[of ?lines _ _ no_fault "[]"]
  from c3[of 1 7] k obtain spans
    where "processInlineFormatting no_fault ([] @ [InsertText (?lines ! 1 @ [NL]) 7]) (?lines ! 1) 7
             = Some ([] @ InsertText (?lines ! 1 @ [NL]) 7 # spans)"
      and "loop_body no_fault ?lines 1 7 []
             = Some (1, 7 + length (?lines ! 1) + 1, [] @ InsertText (?lines ! 1 @ [NL]) 7 # spans)"
    by blast
  with p have a: "loop_body no_fault ?lines 1 7 []
       = Some (1, 20, [InsertText (js ''**c** [d](e)\<newline>'') 7, UpdateTextStyle Bold 9 10 ''bold'',
                        UpdateTextStyle (Link (Some (js ''e''))) 14 15 ''link''])"
    by (simp add: js_def NL_def)
  from c3[of 0 1] h obtain hashes :: jsstring and tx
    where b: "loop_body no_fault ?lines 0 1 []
           = Some (0, 1 + length tx + 1,
                   [] @ [InsertText (tx @ [NL]) 1,
                      UpdateParagraphStyle (NamedStyleType (''HEADING_'' @ decimal (length hashes)))
                        1 (1 + length tx) ''namedStyleType''])"
    by blast
  from c3[of 0 1] kh obtain i' index' out
    where "loop_body no_fault ?lines 0 1 [] = Some (i', index', [] @ out)"
      and "\<forall>r \<in> set out. inline_style r = None" and "i' = 0"
    by auto
  have bh: "loop_body no_fault ?lines 0 1 []
       = Some (0, 7, [InsertText (js ''**a**\<newline>'') 1,
                      UpdateParagraphStyle (NamedStyleType ''HEADING_1'') 1 6 ''namedStyleType''])"
    by (simp add: eval_simps0 del: in_succeed_if succeed_if_Nil)
  have f1: "\<not> startsWith (trim (?fenced ! 1)) fence"
    by (simp add: eval_simps0)
  have f2: "startsWith (trim (?fenced ! 2)) fence"
    by (simp add: eval_simps0)
  from C3_inline_scan_paragraph_only[of ?fenced 0 1 no_fault "[]"] kc obtain j code
    where j: "0 < j" "j \<le> length ?fenced"
      and nf: "\<forall>k. 0 < k \<and> k < j \<longrightarrow> \<not> startsWith (trim (?fenced ! k)) fence"
      and cl: "j < length ?fenced \<longrightarrow> startsWith (trim (?fenced ! j)) fence"
      and code: "code = concat (map (\<lambda>l. l @ [NL]) (take (j - (0 + 1)) (drop (0 + 1) ?fenced)))"
      and lb: "loop_body no_fault ?fenced 0 1 []
             = Some (j, 1 + length code,
                     [] @ [InsertText code 1,
                        UpdateTextStyle CourierNewGray 1 (1 + length code)
                          ''fontFamily,backgroundColor''])"
      and lp: "loop no_fault ?fenced 0 1 []
             = loop no_fault ?fenced (j + 1) (1 + length code)
                 ([] @ [InsertText code 1,
                     UpdateTextStyle CourierNewGray 1 (1 + length code)
                       ''fontFamily,backgroundColor''])"
    by auto
  from j have "j = 1 \<or> j = 2 \<or> j = 3 \<or> j = 4"
    by auto
  then have j2: "j = 2"
  proof (elim disjE)
    assume "j = 1"
    with cl f1 show ?thesis by simp
  next
    assume "j = 3"
    with nf[rule_format, of 2] f2 show ?thesis by simp
  next
    assume "j = 4"
    with nf[rule_format, of 2] f2 show ?thesis by simp
  qed
  with code have cx: "code = js ''**x**\<newline>''"
    by (simp add: js_def NL_def)
  from lb j2 cx have cb: "loop_body no_fault ?fenced 0 1 []
       = Some (2, 7, [InsertText (js ''**x**\<newline>'') 1,
                      UpdateTextStyle CourierNewGray 1 7 ''fontFamily,backgroundColor''])"
    by (simp add: js_def)
  have ev: "loop no_fault ?fenced (2 + 1) (1 + length (js ''**x**\<newline>''))
         ([] @ [InsertText (js ''**x**\<newline>'') 1,
                UpdateTextStyle CourierNewGray 1 (1 + length (js ''**x**\<newline>''))
                  ''fontFamily,backgroundColor''])
       = Some ([InsertText (js ''**x**\<newline>'') 1,
                UpdateTextStyle CourierNewGray 1 7 ''fontFamily,backgroundColor'',
                InsertText (js ''**y**\<newline>'') 7, UpdateTextStyle Bold 9 10 ''bold''], 13)"
    by (simp add: loop.simps eval_simps0 no_fault_def del: in_succeed_if succeed_if_Nil)
  have cp: "loop no_fault ?fenced 0 1 []
       = Some ([InsertText (js ''**x**\<newline>'') 1,
                UpdateTextStyle CourierNewGray 1 7 ''fontFamily,backgroundColor'',
                InsertText (js ''**y**\<newline>'') 7, UpdateTextStyle Bold 9 10 ''bold''], 13)"
    using lp unfolding j2 cx ev .
  from a k kh h b bh kc cb cp show ?thesis by simp
qed

text \<open>
  C2, as the code has it. A line that the bulleted or the numbered pattern matches is made
  of leading white space, the marker (a dash, or digits and a dot), one or more white
  space characters, and the item text. The item text is not empty, holds no line
  terminator, and begins with a white space character only when it is that single
  character: the white space after the marker is taken as far as it goes, short of one
  character when nothing else is left for the text. The line is inserted as the item text
  and a newline, with no glyph before it. The list request ranges from the index to the
  index plus the length of the item text, an indented item gets an indent style, 18 points
  for each leading white space character, over the same range, and the index moves by the
  length of the item text plus 1.
\<close>

theorem C2_list_item:
  "(match_re (lines ! i) bulletedListRegex \<noteq> None \<longrightarrow>
      (\<exists>m spaces ws text.
         match_re (lines ! i) bulletedListRegex = Some m
         \<and> group (lines ! i) m 1 = Some spaces \<and> group (lines ! i) m 2 = Some text
         \<and> lines ! i = spaces @ of_char CHR ''-'' # ws @ text
         \<and> (\<forall>c \<in> set spaces. isWhiteSpace c)
         \<and> ws \<noteq> [] \<and> (\<forall>c \<in> set ws. isWhiteSpace c)
         \<and> text \<noteq> [] \<and> (\<forall>c \<in> set text. \<not> isLineTerminator c)
         \<and> (isWhiteSpace (hd text) \<longrightarrow> length text = 1)
         \<and> loop_body fault lines i index requests
             = Some (i, index + length text + 1,
                 requests
                 @ InsertText (text @ [NL]) index
                 # CreateParagraphBullets index (index + length text) ''BULLET_DISC_CIRCLE_SQUARE''
                 # (if 0 < length spaces
                    then [UpdateParagraphStyle (Indent (length spaces * 18) 0) index
                            (index + length text) ''indentStart,indentFirstLine'']
                    else []))))
   \<and> (match_re (lines ! i) numberedListRegex \<noteq> None \<longrightarrow>
      (\<exists>m spaces digits ws text.
         match_re (lines ! i) numberedListRegex = Some m
         \<and> group (lines ! i) m 1 = Some spaces \<and> group (lines ! i) m 2 = Some text
         \<and> lines ! i = spaces @ digits @ of_char CHR ''.'' # ws @ text
         \<and> (\<forall>c \<in> set spaces. isWhiteSpace c)
         \<and> digits \<noteq> [] \<and> (\<forall>c \<in> set digits. isDigit c)
         \<and> ws \<noteq> [] \<and> (\<forall>c \<in> set ws. isWhiteSpace c)
         \<and> text \<noteq> [] \<and> (\<forall>c \<in> set text. \<not> isLineTerminator c)
         \<and> (isWhiteSpace (hd text) \<longrightarrow> length text = 1)
         \<and> loop_body fault lines i index requests
             = Some (i, index + length text + 1,
                 requests
                 @ InsertText (text @ [NL]) index
                 # CreateParagraphBullets index (index + length text) ''NUMBERED_DECIMAL_NESTED''
                 # (if 0 < length spaces
                    then [UpdateParagraphStyle (Indent (length spaces * 18) 0) index
                            (index + length text) ''indentStart,indentFirstLine'']
                    else []))))"
proof (intro conjI impI)
  assume "match_re (lines ! i) bulletedListRegex \<noteq> None"
  then obtain m where m: "match_re (lines ! i) bulletedListRegex = Some m"
    by blast
  from loop_body_Bulleted[OF bulleted_kind[OF m], of index] m
  have b: "loop_body fault lines i index requests
      = list_item (lines ! i) m ''BULLET_DISC_CIRCLE_SQUARE'' i index requests"
    by simp
  from bulleted_parts[OF m] obtain sp ws tx
    where g: "group (lines ! i) m 1 = Some sp" "group (lines ! i) m 2 = Some tx"
      and d: "lines ! i = sp @ of_char CHR ''-'' # ws @ tx"
        "\<forall>c \<in> set sp. isWhiteSpace c" "ws \<noteq> []" "\<forall>c \<in> set ws. isWhiteSpace c"
        "tx \<noteq> []" "\<forall>c \<in> set tx. \<not> isLineTerminator c"
        "isWhiteSpace (hd tx) \<longrightarrow> length tx = 1"
    by blast
  from m g d b list_item_eq[OF g, of "''BULLET_DISC_CIRCLE_SQUARE''" i index requests]
  show "\<exists>m spaces ws text.
         match_re (lines ! i) bulletedListRegex = Some m
         \<and> group (lines ! i) m 1 = Some spaces \<and> group (lines ! i) m 2 = Some text
         \<and> lines ! i = spaces @ of_char CHR ''-'' # ws @ text
         \<and> (\<forall>c \<in> set spaces. isWhiteSpace c)
         \<and> ws \<noteq> [] \<and> (\<forall>c \<in> set ws. isWhiteSpace c)
         \<and> text \<noteq> [] \<and> (\<forall>c \<in> set text. \<not> isLineTerminator c)
         \<and> (isWhiteSpace (hd text) \<longrightarrow> length text = 1)
         \<and> loop_body fault lines i index requests
             = Some (i, index + length text + 1,
                 requests
                 @ InsertText (text @ [NL]) index
                 # CreateParagraphBullets index (index + length text) ''BULLET_DISC_CIRCLE_SQUARE''
                 # (if 0 < length spaces
                    then [UpdateParagraphStyle (Indent (length spaces * 18) 0) index
                            (index + length text) ''indentStart,indentFirstLine'']
                    else []))"
    by (intro exI[of _ m] exI[of _ sp] exI[of _ ws] exI[of _ tx]) simp
next
  assume "match_re (lines ! i) numberedListRegex \<noteq> None"
  then obtain m where m: "match_re (lines ! i) numberedListRegex = Some m"
    by blast
  from loop_body_Numbered[OF numbered_kind[OF m], of index] m
  have b: "loop_body fault lines i index requests
      = list_item (lines ! i) m ''NUMBERED_DECIMAL_NESTED'' i index requests"
    by simp
  from numbered_parts[OF m] obtain sp ds ws tx
    where g: "group (lines ! i) m 1 = Some sp" "group (lines ! i) m 2 = Some tx"
      and d: "lines ! i = sp @ ds @ of_char CHR ''.'' # ws @ tx"
        "\<forall>c \<in> set sp. isWhiteSpace c" "ds \<noteq> []" "\<forall>c \<in> set ds. isDigit c"
        "ws \<noteq> []" "\<forall>c \<in> set ws. isWhiteSpace c"
        "tx \<noteq> []" "\<forall>c \<in> set tx. \<not> isLineTerminator c"
        "isWhiteSpace (hd tx) \<longrightarrow> length tx = 1"
    by blast
  from m g d b list_item_eq[OF g, of "''NUMBERED_DECIMAL_NESTED''" i index requests]
  show "\<exists>m spaces digits ws text.
         match_re (lines ! i) numberedListRegex = Some m
         \<and> group (lines ! i) m 1 = Some spaces \<and> group (lines ! i) m 2 = Some text
         \<and> lines ! i = spaces @ digits @ of_char CHR ''.'' # ws @ text
         \<and> (\<forall>c \<in> set spaces. isWhiteSpace c)
         \<and> digits \<noteq> [] \<and> (\<forall>c \<in> set digits. isDigit c)
         \<and> ws \<noteq> [] \<and> (\<forall>c \<in> set ws. isWhiteSpace c)
         \<and> text \<noteq> [] \<and> (\<forall>c \<in> set text. \<not> isLineTerminator c)
         \<and> (isWhiteSpace (hd text) \<longrightarrow> length text = 1)
         \<and> loop_body fault lines i index requests
             = Some (i, index + length text + 1,
                 requests
                 @ InsertText (text @ [NL]) index
                 # CreateParagraphBullets index (index + length text) ''NUMBERED_DECIMAL_NESTED''
                 # (if 0 < length spaces
                    then [UpdateParagraphStyle (Indent (length spaces * 18) 0) index
                            (index + length text) ''indentStart,indentFirstLine'']
                    else []))"
    by (intro exI[of _ m] exI[of _ sp] exI[of _ ds] exI[of _ ws] exI[of _ tx]) simp
qed

theorem C2_witness:
  "match_re (js ''  - a'') bulletedListRegex \<noteq> None
   \<and> loop_body no_fault [js ''  - a'', js ''12. b'', js ''-   ''] 0 1 []
       = Some (0, 3, [InsertText (js ''a\<newline>'') 1,
                      CreateParagraphBullets 1 2 ''BULLET_DISC_CIRCLE_SQUARE'',
                      UpdateParagraphStyle (Indent 36 0) 1 2 ''indentStart,indentFirstLine''])
   \<and> match_re (js ''12. b'') numberedListRegex \<noteq> None
   \<and> loop_body no_fault [js ''  - a'', js ''12. b'', js ''-   ''] 1 3 []
       = Some (1, 5, [InsertText (js ''b\<newline>'') 3,
                      CreateParagraphBullets 3 4 ''NUMBERED_DECIMAL_NESTED''])
   \<and> match_re (js ''-   '') bulletedListRegex \<noteq> None
   \<and> loop_body no_fault [js ''  - a'', js ''12. b'', js ''-   ''] 2 5 []
       = Some (2, 7, [InsertText (js '' \<newline>'') 5,
                      CreateParagraphBullets 5 6 ''BULLET_DISC_CIRCLE_SQUARE''])"
proof -
  let ?lines = "[js ''  - a'', js ''12. b'', js ''-   '']"
  have h0: "match_re (?lines ! 0) bulletedListRegex \<noteq> None"
    by (simp add: eval_simps0 del: in_succeed_if succeed_if_Nil)
  have h1: "match_re (?lines ! 1) numberedListRegex \<noteq> None"
    by (simp add: eval_simps0 del: in_succeed_if succeed_if_Nil)
  have h2: "match_re (?lines ! 2) bulletedListRegex \<noteq> None"
    by (simp add: eval_simps0 del: in_succeed_if succeed_if_Nil)
  have g0: "group (?lines ! 0) (the (match_re (?lines ! 0) bulletedListRegex)) 1 = Some (js ''  '')"
    "group (?lines ! 0) (the (match_re (?lines ! 0) bulletedListRegex)) 2 = Some (js ''a'')"
    by (simp_all add: eval_simps0 del: in_succeed_if succeed_if_Nil)
  have g1: "group (?lines ! 1) (the (match_re (?lines ! 1) numberedListRegex)) 1 = Some []"
    "group (?lines ! 1) (the (match_re (?lines ! 1) numberedListRegex)) 2 = Some (js ''b'')"
    by (simp_all add: eval_simps0 del: in_succeed_if succeed_if_Nil)
  have g2: "group (?lines ! 2) (the (match_re (?lines ! 2) bulletedListRegex)) 1 = Some []"
    "group (?lines ! 2) (the (match_re (?lines ! 2) bulletedListRegex)) 2 = Some (js '' '')"
    by (simp_all add: eval_simps0 del: in_succeed_if succeed_if_Nil)
  note c2 = C2_list_item[of ?lines _ no_fault _ "[]"]
  from c2[of 0 1] h0 obtain m0 sp0 t0
    where a0: "match_re (?lines ! 0) bulletedListRegex = Some m0"
      "group (?lines ! 0) m0 1 = Some sp0" "group (?lines ! 0) m0 2 = Some t0"
      "loop_body no_fault ?lines 0 1 []
             = Some (0, 1 + length t0 + 1,
                 []
                 @ InsertText (t0 @ [NL]) 1
                 # CreateParagraphBullets 1 (1 + length t0) ''BULLET_DISC_CIRCLE_SQUARE''
                 # (if 0 < length sp0
                    then [UpdateParagraphStyle (Indent (length sp0 * 18) 0) 1
                            (1 + length t0) ''indentStart,indentFirstLine'']
                    else []))"
    by blast
  with g0 have b0: "loop_body no_fault ?lines 0 1 []
       = Some (0, 3, [InsertText (js ''a\<newline>'') 1,
                      CreateParagraphBullets 1 2 ''BULLET_DISC_CIRCLE_SQUARE'',
                      UpdateParagraphStyle (Indent 36 0) 1 2 ''indentStart,indentFirstLine''])"
    by (simp add: js_def NL_def)
  from c2[of 1 3] h1 obtain m1 sp1 t1
    where a1: "match_re (?lines ! 1) numberedListRegex = Some m1"
      "group (?lines ! 1) m1 1 = Some sp1" "group (?lines ! 1) m1 2 = Some t1"
      "loop_body no_fault ?lines 1 3 []
             = Some (1, 3 + length t1 + 1,
                 []
                 @ InsertText (t1 @ [NL]) 3
                 # CreateParagraphBullets 3 (3 + length t1) ''NUMBERED_DECIMAL_NESTED''
                 # (if 0 < length sp1
                    then [UpdateParagraphStyle (Indent (length sp1 * 18) 0) 3
                            (3 + length t1) ''indentStart,indentFirstLine'']
                    else []))"
    by blast
  with g1 have b1: "loop_body no_fault ?lines 1 3 []
       = Some (1, 5, [InsertText (js ''b\<newline>'') 3,
                      CreateParagraphBullets 3 4 ''NUMBERED_DECIMAL_NESTED''])"
    by (simp add: js_def NL_def)
  from c2[of 2 5] h2 obtain m2 sp2 t2
    where a2: "match_re (?lines ! 2) bulletedListRegex = Some m2"
      "group (?lines ! 2) m2 1 = Some sp2" "group (?lines ! 2) m2 2 = Some t2"
      "loop_body no_fault ?lines 2 5 []
             = Some (2, 5 + length t2 + 1,
                 []
                 @ InsertText (t2 @ [NL]) 5
                 # CreateParagraphBullets 5 (5 + length t2) ''BULLET_DISC_CIRCLE_SQUARE''
                 # (if 0 < length sp2
                    then [UpdateParagraphStyle (Indent (length sp2 * 18) 0) 5
                            (5 + length t2) ''indentStart,indentFirstLine'']
                    else []))"
    by blast
  with g2 have b2: "loop_body no_fault ?lines 2 5 []
       = Some (2, 7, [InsertText (js '' \<newline>'') 5,
                      CreateParagraphBullets 5 6 ''BULLET_DISC_CIRCLE_SQUARE''])"
    by (simp add: js_def NL_def)
  from h0 h1 h2 b0 b1 b2 show ?thesis by simp
qed

section \<open>Particular inputs\<close>

text \<open>
  C9: converting the empty string yields exactly one request, the insertion of a single
  newline at index 1: \<open>''.split('\n')\<close> is one empty line.
\<close>

theorem C9_empty_input:
  "convertMarkdownToRequests fault (js '''') = Some [InsertText (js ''\<newline>'') 1]"
  by (simp add: eval_simps del: in_succeed_if succeed_if_Nil)

text \<open>
  C10: the paragraph \<open>****\<close> gets a bold request whose range is empty, from 3 to 3: the
  bold pattern matches the four stars with nothing captured between the delimiters.
\<close>

theorem C10_empty_bold_range:
  "convertMarkdownToRequests fault (js ''****'')
     = Some [InsertText (js ''****\<newline>'') 1, UpdateTextStyle Bold 3 3 ''bold'']
   \<and> map_option (\<lambda>m. (m_index m, group (js ''****'') m 1, group (js ''****'') m 2))
         (exec boldRegex (js ''****'') 0)
       = Some (0, Some (js ''**''), Some [])"
  by (simp add: eval_simps del: in_succeed_if succeed_if_Nil)

text \<open>
  C4, as the code has it: \<open>"# Title\n"\<close> gives the insertion of \<open>"Title\n"\<close> at 1, the
  \<open>HEADING_1\<close> style over 1 to 6, and then one more insertion, of \<open>"\n"\<close> at 7, for the
  empty piece that \<open>split\<close> leaves after the final newline.
\<close>

theorem C4_heading_then_blank:
  "convertMarkdownToRequests fault (js ''# Title\<newline>'')
     = Some [InsertText (js ''Title\<newline>'') 1,
             UpdateParagraphStyle (NamedStyleType ''HEADING_1'') 1 6 ''namedStyleType'',
             InsertText (js ''\<newline>'') 7]"
  by (simp add: eval_simps del: in_succeed_if succeed_if_Nil)

text \<open>C4 as stated fails: the result is not the two requests alone.\<close>

theorem C4_counterexample:
  "convertMarkdownToRequests no_fault (js ''# Title\<newline>'')
     \<noteq> Some [InsertText (js ''Title\<newline>'') 1,
              UpdateParagraphStyle (NamedStyleType ''HEADING_1'') 1 6 ''namedStyleType'']"
  by (simp add: eval_simps del: in_succeed_if succeed_if_Nil)

text \<open>
  C5, as the code has it: \<open>***wow***\<close> gives one inline request, bold over the four
  characters \<open>*wow\<close> (3 to 7), and no italic request.
\<close>

theorem C5_triple_star:
  "convertMarkdownToRequests fault (js ''***wow***'')
     = Some [InsertText (js ''***wow***\<newline>'') 1, UpdateTextStyle Bold 3 7 ''bold'']"
  by (simp add: eval_simps del: in_succeed_if succeed_if_Nil)

text \<open>C5 as stated fails: no request of the result is italic.\<close>

theorem C5_counterexample:
  "map_option (filter is_italic) (convertMarkdownToRequests no_fault (js ''***wow***'')) = Some []"
  by (simp add: eval_simps is_italic_def del: in_succeed_if succeed_if_Nil)

text \<open>
  C3 as stated fails: a heading with bold and link markers gets the insertion and the
  heading style, and no inline request.
\<close>

theorem C3_counterexample:
  "convertMarkdownToRequests no_fault (js ''# **a** [b](c)'')
     = Some [InsertText (js ''**a** [b](c)\<newline>'') 1,
             UpdateParagraphStyle (NamedStyleType ''HEADING_1'') 1 13 ''namedStyleType'']"
  by (simp add: eval_simps del: in_succeed_if succeed_if_Nil)

text \<open>
  C2 as stated fails: the ordered item \<open>1. a\<close> is inserted as \<open>"a\n"\<close>, without
  \<open>"1. "\<close>, and the range of its list request ends at 2.
\<close>

theorem C2_counterexample:
  "convertMarkdownToRequests no_fault (js ''1. a'')
     = Some [InsertText (js ''a\<newline>'') 1,
             CreateParagraphBullets 1 2 ''NUMBERED_DECIMAL_NESTED'']"
  by (simp add: eval_simps del: in_succeed_if succeed_if_Nil)


end
